theory Spec2Isabelle
  imports Main "HOL-Library.AList"
begin

text \<open>
  A shallow embedding of the asset pipeline of fh5dl (\<^verbatim>\<open>internal/book/book.go\<close> and
  \<^verbatim>\<open>cmd/main.go\<close>): identifier resolution, manifest normalisation, the flattening of a
  book into image descriptors, the download of one image with its retries, the batched
  download phase, the capture phase and the assembly of the page list of the PDF.
  The first part holds the model, the second part the proofs.
\<close>

section \<open>Strings (package strings, strconv and path/filepath)\<close>

text \<open>
  A Go string is a byte sequence, here a \<^typ>\<open>string\<close>.  The functions below are the ones
  the pipeline calls, with the argument order of Go.
\<close>

definition HasPrefix :: "string \<Rightarrow> string \<Rightarrow> bool" where
  "HasPrefix s p = (take (length p) s = p)"

definition TrimPrefix :: "string \<Rightarrow> string \<Rightarrow> string" where
  "TrimPrefix s p = (if HasPrefix s p then drop (length p) s else s)"

definition HasSuffix :: "string \<Rightarrow> string \<Rightarrow> bool" where
  "HasSuffix s suffix = (length suffix \<le> length s \<and> drop (length s - length suffix) s = suffix)"

definition TrimSuffix :: "string \<Rightarrow> string \<Rightarrow> string" where
  "TrimSuffix s suffix = (if HasSuffix s suffix then take (length s - length suffix) s else s)"

fun Contains :: "string \<Rightarrow> string \<Rightarrow> bool" where
  "Contains [] substr = (substr = [])"
| "Contains (c # cs) substr = (HasPrefix (c # cs) substr \<or> Contains cs substr)"

text \<open>\<^verbatim>\<open>strings.Replace(s, old, new, 1)\<close>: the first occurrence of \<open>old\<close> is replaced.\<close>

fun Replace1 :: "string \<Rightarrow> string \<Rightarrow> string \<Rightarrow> string" where
  "Replace1 [] old new = (if old = [] then new else [])"
| "Replace1 (c # cs) old new =
     (if HasPrefix (c # cs) old then new @ drop (length old) (c # cs)
      else c # Replace1 cs old new)"

text \<open>\<^verbatim>\<open>strings.Trim(s, "/")\<close> with a one-character cutset.\<close>

definition Trim :: "string \<Rightarrow> char \<Rightarrow> string" where
  "Trim s c = rev (dropWhile (\<lambda>x. x = c) (rev (dropWhile (\<lambda>x. x = c) s)))"

text \<open>The verb \<^verbatim>\<open>%d\<close> of \<^verbatim>\<open>fmt.Sprintf\<close>: decimal digits, with a minus sign for a
  negative number.\<close>

definition digit_char :: "nat \<Rightarrow> char" where
  "digit_char d = char_of (48 + d)"

function decimal :: "nat \<Rightarrow> string" where
  "decimal n = (if n < 10 then [digit_char n] else decimal (n div 10) @ [digit_char (n mod 10)])"
  by pat_completeness auto
termination
  by (relation "measure (\<lambda>n. n)") auto

declare decimal.simps [simp del]

definition Itoa :: "int \<Rightarrow> string" where
  "Itoa i = (if i < 0 then ''-'' @ decimal (nat (- i)) else decimal (nat i))"

text \<open>\<^verbatim>\<open>filepath.Join(dir, name)\<close> for a directory that is already clean (it comes from
  \<^verbatim>\<open>filepath.Abs\<close> or \<^verbatim>\<open>os.MkdirTemp\<close>) and a plain file name.\<close>

definition Join :: "string \<Rightarrow> string \<Rightarrow> string" where
  "Join dir name = dir @ ''/'' @ name"

section \<open>Data model (internal/book/book.go)\<close>

text \<open>
  The structs of the package \<^verbatim>\<open>book\<close>.  Go's \<^verbatim>\<open>int\<close> is modelled by
  \<^typ>\<open>int\<close>: every integer that occurs is a list position or a page number, far below
  the 64-bit range.  \<^verbatim>\<open>DownloadedImage\<close> repeats the four fields of
  \<^verbatim>\<open>PageImage\<close> and adds \<^verbatim>\<open>FullPath\<close>: a record extension.  The fields of
  \<^verbatim>\<open>Book\<close> and \<^verbatim>\<open>InteractivePageImage\<close> that would clash with those of
  \<^verbatim>\<open>PageImage\<close> carry a suffix.
\<close>

record Page =
  Number :: int
  ThumbnailUrl :: string
  ImageUrls :: "string list"

record Book =
  Url_B :: string
  Id :: string
  Title :: string
  Pages :: "Page list"

record PageImage =
  PageNumber :: int
  ImageNumber :: int
  OverallOrder :: int
  Url :: string

record DownloadedImage = PageImage +
  FullPath :: string

record InteractivePageImage =
  PageNumber_I :: int
  OverallOrder_I :: int
  Url_I :: string
  FullPath_I :: string

text \<open>
  A decoded JSON value, as \<^verbatim>\<open>encoding/json\<close> stores it in an \<^verbatim>\<open>interface{}\<close>;
  the payload of a number is not needed.  \<^verbatim>\<open>page.Images\<close> has this type.
\<close>

datatype json =
    JNull
  | JBool bool
  | JNumber
  | JString string
  | JArray "json list"
  | JObject "(string \<times> json) list"

record page_c =
  Images :: json
  ThumbUrl :: string

record htmlConfig =
  Pages_c :: "page_c list"
  Meta_Title :: string

text \<open>The two fields of \<^verbatim>\<open>url.URL\<close> that \<^verbatim>\<open>ParseId\<close> reads.\<close>

record URL =
  Host :: string
  Path :: string

text \<open>Errors.  \<open>attempt_error\<close> is what \<^verbatim>\<open>Download\<close> keeps in \<^verbatim>\<open>lastErr\<close>.\<close>

datatype attempt_error =
    NewRequestErr
  | TransportErr
  | StatusErr nat
  | CreateErr
  | CopyErr
  | FlushErr
  | CloseErr

datatype error =
    InvalidId string
  | ManifestErr
  | SetupErr
  | DownloadFailed nat "attempt_error option"
  | ProgressBarErr
  | DivideByZero
  | CaptureErr int
  | NoCaptures
  | PdfExists
  | EncodeErr

section \<open>ParseId\<close>

text \<open>
  \<^verbatim>\<open>idRegex\<close> is \<^verbatim>\<open>^(\w+\/\w+)\/?\<close>.  \<^verbatim>\<open>\w\<close> is the ASCII class
  \<^verbatim>\<open>[0-9A-Za-z_]\<close>.  The pattern is anchored at the start only.  Both \<^verbatim>\<open>\w+\<close> are
  greedy: the first run is followed by \<^verbatim>\<open>/\<close>, which is no word character, so it is the
  whole leading run of word characters; the second run is followed by the optional
  \<^verbatim>\<open>\/?\<close>, which never fails, so the greedy choice (the whole run) stands.
  \<open>idRegex_FindStringSubmatch\<close> returns submatch 1 of the match, or \<open>None\<close> for \<^verbatim>\<open>nil\<close>.
\<close>

definition is_word :: "char \<Rightarrow> bool" where
  "is_word c = (let n = (of_char c :: nat) in
      (48 \<le> n \<and> n \<le> 57) \<or> (65 \<le> n \<and> n \<le> 90) \<or> n = 95 \<or> (97 \<le> n \<and> n \<le> 122))"

definition idRegex_FindStringSubmatch :: "string \<Rightarrow> string option" where
  "idRegex_FindStringSubmatch s =
     (let w1 = takeWhile is_word s in
      if w1 = [] then None
      else case dropWhile is_word s of
        [] \<Rightarrow> None
      | c # r \<Rightarrow>
          if c = CHR ''/'' then
            (let w2 = takeWhile is_word r in
             if w2 = [] then None else Some (w1 @ ''/'' @ w2))
          else None)"

text \<open>
  \<^verbatim>\<open>url.Parse\<close> belongs to the standard library: it is the parameter \<open>url_Parse\<close>,
  \<open>None\<close> when it returns an error.
\<close>

definition ParseId :: "(string \<Rightarrow> URL option) \<Rightarrow> string \<Rightarrow> error + string" where
  "ParseId url_Parse idOrUrl =
     (case idRegex_FindStringSubmatch idOrUrl of
        Some m \<Rightarrow> Inr m
      | None \<Rightarrow>
          (case url_Parse idOrUrl of
             None \<Rightarrow> Inl (InvalidId idOrUrl)
           | Some u \<Rightarrow>
               if Host u \<noteq> [] then
                 (case idRegex_FindStringSubmatch (Trim (Path u) CHR ''/'') of
                    Some m \<Rightarrow> Inr m
                  | None \<Rightarrow> Inl (InvalidId idOrUrl))
               else Inl (InvalidId idOrUrl)))"

section \<open>Get\<close>

text \<open>
  The two branches of the type switch in \<^verbatim>\<open>Get\<close> build the URL of a filename with the
  same statements; \<open>image_url\<close> is that text (\<open>id'\<close> is the variable \<^verbatim>\<open>id\<close>).  In the slice branch an element that is no
  string is skipped.  Any other JSON value leaves \<^verbatim>\<open>images\<close> empty.
\<close>

definition image_url :: "string \<Rightarrow> string \<Rightarrow> string" where
  "image_url id' imgStr =
     (let trimmed = TrimPrefix imgStr ''./'' in
      if HasPrefix trimmed ''files/''
      then ''https://online.fliphtml5.com/'' @ id' @ ''/'' @ trimmed
      else ''https://online.fliphtml5.com/'' @ id' @ ''/files/large/'' @ trimmed)"

fun array_images :: "string \<Rightarrow> json list \<Rightarrow> string list \<Rightarrow> string list" where
  "array_images id' [] images = images"
| "array_images id' (img # v) images =
     (case img of
        JString imgStr \<Rightarrow> array_images id' v (images @ [image_url id' imgStr])
      | _ \<Rightarrow> array_images id' v images)"

definition page_image_urls :: "string \<Rightarrow> json \<Rightarrow> string list" where
  "page_image_urls id' v =
     (case v of
        JArray elems \<Rightarrow> array_images id' elems []
      | JString str \<Rightarrow> [image_url id' str]
      | _ \<Rightarrow> [])"

fun Get_pages :: "string \<Rightarrow> int \<Rightarrow> page_c list \<Rightarrow> Page list \<Rightarrow> Page list" where
  "Get_pages id' i [] pages = pages"
| "Get_pages id' i (pageInfo # rest) pages =
     Get_pages id' (i + 1) rest
       (pages @ [\<lparr>Number = i + 1, ThumbnailUrl = ThumbUrl pageInfo,
                  ImageUrls = page_image_urls id' (Images pageInfo)\<rparr>])"

text \<open>\<open>downloadHtmlConfig\<close> (one HTTP request and the JSON decoding) and
  \<^verbatim>\<open>html.UnescapeString\<close> are parameters.\<close>

definition Get ::
  "(string \<Rightarrow> URL option) \<Rightarrow> (string \<Rightarrow> error + htmlConfig) \<Rightarrow> (string \<Rightarrow> string)
     \<Rightarrow> string \<Rightarrow> error + Book" where
  "Get url_Parse downloadHtmlConfig UnescapeString idOrUrl =
     (case ParseId url_Parse idOrUrl of
        Inl err \<Rightarrow> Inl err
      | Inr id' \<Rightarrow>
          (case downloadHtmlConfig id' of
             Inl err \<Rightarrow> Inl err
           | Inr config \<Rightarrow>
               Inr \<lparr>Url_B = ''https://online.fliphtml5.com/'' @ id' @ ''/'', Id = id',
                    Title = UnescapeString (Meta_Title config),
                    Pages = Get_pages id' 0 (Pages_c config) []\<rparr>))"

section \<open>FindAllImages\<close>

text \<open>
  \<^verbatim>\<open>FindAllImages\<close> is two nested \<^verbatim>\<open>range\<close> loops over the pages and over each
  page's image URLs.  The loop state is the slice \<^verbatim>\<open>images\<close> and the counter
  \<^verbatim>\<open>order\<close>; \<open>i\<close> and \<open>j\<close> are the 0-based loop indices.
\<close>

fun find_images_inner :: "int \<Rightarrow> int \<Rightarrow> string list \<Rightarrow> PageImage list \<times> int \<Rightarrow> PageImage list \<times> int" where
  "find_images_inner i j [] (images, order) = (images, order)"
| "find_images_inner i j (imageUrl # rest) (images, order) =
     find_images_inner i (j + 1) rest
       (images @ [\<lparr>PageNumber = i + 1, ImageNumber = j + 1, OverallOrder = order, Url = imageUrl\<rparr>],
        order + 1)"

fun find_images_outer :: "int \<Rightarrow> Page list \<Rightarrow> PageImage list \<times> int \<Rightarrow> PageImage list \<times> int" where
  "find_images_outer i [] s = s"
| "find_images_outer i (page # rest) s =
     find_images_outer (i + 1) rest (find_images_inner i 0 (ImageUrls page) s)"

definition FindAllImages :: "Book \<Rightarrow> PageImage list" where
  "FindAllImages b = fst (find_images_outer 0 (Pages b) ([], 1))"

section \<open>The world outside the program\<close>

text \<open>
  The file system is a map from paths to what the file holds: \<open>Partial\<close> for a file that
  was created (and truncated) but not written to the end, \<open>Complete\<close> otherwise.
  \<^verbatim>\<open>os.Stat(p)\<close> returns no error exactly for a path in the domain; \<^verbatim>\<open>os.Remove(p)\<close>
  takes the path out.  \<open>requests\<close> lists the URLs handed to \<^verbatim>\<open>client.Do\<close>, in order,
  and \<open>sleeps\<close> the seconds passed to \<^verbatim>\<open>time.Sleep\<close> by \<^verbatim>\<open>Download\<close>.
\<close>

datatype filecontent = Partial | Complete

record world =
  files :: "string \<Rightarrow> filecontent option"
  requests :: "string list"
  sleeps :: "nat list"

text \<open>
  What the network and the disk answer during one call of \<^verbatim>\<open>Download\<close>.  A call of
  \<^verbatim>\<open>client.Do\<close> is identified by the attempt and by its slot within the attempt: slot 0
  is the request of \<^verbatim>\<open>i.Url\<close>, slot \<open>k + 1\<close> the request of candidate \<open>k\<close>, and the
  slot after the last candidate the "quick retry".  So two requests of one URL may be
  answered differently.  A response is a transport error or an HTTP status.
  \<^verbatim>\<open>http.NewRequestWithContext\<close> depends on the URL only.
\<close>

datatype response = NetErr | Status nat

record dl_env =
  newRequestOK :: "string \<Rightarrow> bool"
  clientDo :: "nat \<Rightarrow> nat \<Rightarrow> string \<Rightarrow> response"
  createOK :: "nat \<Rightarrow> bool"
  copyOK :: "nat \<Rightarrow> bool"
  flushOK :: "nat \<Rightarrow> bool"
  closeOK :: "nat \<Rightarrow> bool"

section \<open>Download\<close>

definition StatusOK :: nat where
  "StatusOK = 200"

definition candidates :: "string \<Rightarrow> string list" where
  "candidates url =
     (if Contains url ''/files/large/'' then [Replace1 url ''/files/large/'' ''/files/''] else [])
     @ (if HasSuffix url ''.webp''
        then (let base = TrimSuffix url ''.webp'' in [base @ ''.jpg'', base @ ''.png''])
        else [])"

text \<open>The loop over \<^verbatim>\<open>candidates\<close>: the first alternate that answers 200 is returned
  (the \<^verbatim>\<open>goto OK\<close>); an alternate whose request cannot be built is skipped.\<close>

fun try_candidates :: "dl_env \<Rightarrow> nat \<Rightarrow> nat \<Rightarrow> string list \<Rightarrow> world \<Rightarrow> string option \<times> world" where
  "try_candidates env attempt slot [] w = (None, w)"
| "try_candidates env attempt slot (alt # rest) w =
     (if \<not> newRequestOK env alt then try_candidates env attempt (slot + 1) rest w
      else
        (let w1 = w\<lparr>requests := requests w @ [alt]\<rparr> in
         if clientDo env attempt slot alt = Status StatusOK then (Some alt, w1)
         else try_candidates env attempt (slot + 1) rest w1))"

text \<open>
  From the label \<^verbatim>\<open>OK\<close> to the end of the loop body: create the file, copy, flush and
  close, and remove the file when one of the three failed.  \<open>None\<close> is the successful
  return, \<open>Some err\<close> is \<^verbatim>\<open>lastErr = err; continue\<close>.
\<close>

definition write_file :: "dl_env \<Rightarrow> nat \<Rightarrow> string \<Rightarrow> world \<Rightarrow> attempt_error option \<times> world" where
  "write_file env attempt fullPath w =
     (if \<not> createOK env attempt then (Some CreateErr, w)
      else
        (let w1 = w\<lparr>files := (files w)(fullPath \<mapsto> Partial)\<rparr> in
         if \<not> copyOK env attempt then (Some CopyErr, w1\<lparr>files := (files w1)(fullPath := None)\<rparr>)
         else if \<not> flushOK env attempt then (Some FlushErr, w1\<lparr>files := (files w1)(fullPath := None)\<rparr>)
         else if \<not> closeOK env attempt then (Some CloseErr, w1\<lparr>files := (files w1)(fullPath := None)\<rparr>)
         else (None, w1\<lparr>files := (files w1)(fullPath \<mapsto> Complete)\<rparr>)))"

text \<open>
  One iteration of the retry loop, after the sleep.  The descriptor is returned too:
  \<^verbatim>\<open>Download\<close> has a pointer receiver and assigns \<^verbatim>\<open>i.Url\<close>.  In the "quick retry"
  a 200 answer assigns \<^verbatim>\<open>i.Url\<close> and \<^verbatim>\<open>res\<close>, leaves the inner \<^verbatim>\<open>if\<close> and reaches
  \<^verbatim>\<open>lastErr = \<dots>(res.Status); continue\<close>: the attempt ends without writing the file.
\<close>

definition attempt_body ::
  "dl_env \<Rightarrow> string \<Rightarrow> nat \<Rightarrow> PageImage \<Rightarrow> world \<Rightarrow> attempt_error option \<times> PageImage \<times> world" where
  "attempt_body env fullPath attempt i w =
     (if \<not> newRequestOK env (Url i) then (Some NewRequestErr, i, w)
      else
        (let w1 = w\<lparr>requests := requests w @ [Url i]\<rparr> in
         case clientDo env attempt 0 (Url i) of
           NetErr \<Rightarrow> (Some TransportErr, i, w1)
         | Status code \<Rightarrow>
             if code \<noteq> StatusOK then
               (case try_candidates env attempt 1 (candidates (Url i)) w1 of
                  (Some alt, w2) \<Rightarrow>
                    (let (r, w3) = write_file env attempt fullPath w2 in (r, i\<lparr>Url := alt\<rparr>, w3))
                | (None, w2) \<Rightarrow>
                    (let altUrl = Replace1 (Url i) ''/files/large/'' ''/files/'' in
                     if newRequestOK env altUrl then
                       (let w3 = w2\<lparr>requests := requests w2 @ [altUrl]\<rparr> in
                        if clientDo env attempt (1 + length (candidates (Url i))) altUrl = Status StatusOK
                        then (Some (StatusErr StatusOK), i\<lparr>Url := altUrl\<rparr>, w3)
                        else (Some (StatusErr code), i, w3))
                     else (Some (StatusErr code), i, w2)))
             else
               (let (r, w2) = write_file env attempt fullPath w1 in (r, i, w2))))"

text \<open>The retry loop \<^verbatim>\<open>for attempt := 0; attempt < maxRetries; attempt++\<close>, with the
  backoff \<^verbatim>\<open>math.Pow(2, attempt)\<close> seconds before every attempt but the first.\<close>

function attempts ::
  "dl_env \<Rightarrow> string \<Rightarrow> nat \<Rightarrow> nat \<Rightarrow> attempt_error option \<Rightarrow> PageImage \<Rightarrow> world
     \<Rightarrow> (error + DownloadedImage) \<times> PageImage \<times> world" where
  "attempts env fullPath maxRetries attempt lastErr i w =
     (if attempt < maxRetries then
        (case attempt_body env fullPath attempt i
                (if attempt > 0 then w\<lparr>sleeps := sleeps w @ [2 ^ attempt]\<rparr> else w) of
           (None, i', w') \<Rightarrow>
             (Inr \<lparr>PageNumber = PageNumber i', ImageNumber = ImageNumber i',
                   OverallOrder = OverallOrder i', Url = Url i', FullPath = fullPath\<rparr>, i', w')
         | (Some err, i', w') \<Rightarrow> attempts env fullPath maxRetries (attempt + 1) (Some err) i' w')
      else (Inl (DownloadFailed maxRetries lastErr), i, w))"
  by pat_completeness auto
termination
  by (relation "measure (\<lambda>(env, fullPath, maxRetries, attempt, rest). maxRetries - attempt)") auto

declare attempts.simps [simp del]

definition image_path :: "string \<Rightarrow> PageImage \<Rightarrow> string" where
  "image_path outputFolder i =
     Join outputFolder (Itoa (PageNumber i) @ ''-'' @ Itoa (ImageNumber i) @ ''.jpg'')"

definition Download ::
  "dl_env \<Rightarrow> PageImage \<Rightarrow> string \<Rightarrow> world \<Rightarrow> (error + DownloadedImage) \<times> PageImage \<times> world" where
  "Download env i outputFolder w =
     (let fullPath = image_path outputFolder i in
      if files w fullPath \<noteq> None then
        (Inr \<lparr>PageNumber = PageNumber i, ImageNumber = ImageNumber i,
              OverallOrder = OverallOrder i, Url = Url i, FullPath = fullPath\<rparr>, i, w)
      else attempts env fullPath 3 0 None i w)"

section \<open>downloadImages\<close>

text \<open>
  The environment of one run of the download phase: the outcome of the block that
  resolves or creates the image directory, the answers for every image (by its index in
  the slice), and the outcomes of the progress bar, whose errors the function returns.

  Within a batch the closures run concurrently under an \<^verbatim>\<open>errgroup\<close>.  Each closure
  reads and writes only the file of its own image and the mutex-protected result slice,
  which is sorted by \<^verbatim>\<open>OverallOrder\<close> before it is returned, and \<^verbatim>\<open>eg.Wait\<close> returns an
  error as soon as one closure does.  The model runs the closures of a batch in slice
  order and stops at the first error.
\<close>

record dl_sys =
  image_root_result :: "error + string"
  item_env :: "nat \<Rightarrow> dl_env"
  barAddOK :: "nat \<Rightarrow> bool"
  barCloseOK :: bool

definition download_item ::
  "dl_sys \<Rightarrow> string \<Rightarrow> nat \<Rightarrow> PageImage \<Rightarrow> world \<Rightarrow> (error + DownloadedImage) \<times> world" where
  "download_item sys imageOutputRoot idx image' w =
     (let expectedPath = image_path imageOutputRoot image' in
      if files w expectedPath \<noteq> None then
        (if barAddOK sys idx
         then Inr \<lparr>PageNumber = PageNumber image', ImageNumber = ImageNumber image',
                   OverallOrder = OverallOrder image', Url = Url image', FullPath = expectedPath\<rparr>
         else Inl ProgressBarErr, w)
      else
        (case Download (item_env sys idx) image' imageOutputRoot w of
           (Inl err, i', w') \<Rightarrow> (Inl err, w')
         | (Inr result, i', w') \<Rightarrow>
             (if barAddOK sys idx then Inr result else Inl ProgressBarErr, w')))"

fun download_batch ::
  "dl_sys \<Rightarrow> string \<Rightarrow> nat \<Rightarrow> PageImage list \<Rightarrow> DownloadedImage list \<Rightarrow> world
     \<Rightarrow> (error + DownloadedImage list) \<times> world" where
  "download_batch sys root idx [] downloadedImages w = (Inr downloadedImages, w)"
| "download_batch sys root idx (image' # rest) downloadedImages w =
     (case download_item sys root idx image' w of
        (Inl err, w') \<Rightarrow> (Inl err, w')
      | (Inr result, w') \<Rightarrow> download_batch sys root (idx + 1) rest (downloadedImages @ [result]) w')"

text \<open>The loop over the batches; \<^verbatim>\<open>images[start:end]\<close> is \<open>take (end - start) (drop start images)\<close>.\<close>

function download_batches ::
  "dl_sys \<Rightarrow> string \<Rightarrow> PageImage list \<Rightarrow> nat \<Rightarrow> nat \<Rightarrow> nat \<Rightarrow> DownloadedImage list \<Rightarrow> world
     \<Rightarrow> (error + DownloadedImage list) \<times> world" where
  "download_batches sys root images batchSize numBatches batchIdx downloadedImages w =
     (if batchIdx < numBatches then
        (let start = batchIdx * batchSize;
             end = (if (batchIdx + 1) * batchSize > length images then length images
                    else (batchIdx + 1) * batchSize);
             batchImages = take (end - start) (drop start images)
         in case download_batch sys root start batchImages downloadedImages w of
              (Inl err, w') \<Rightarrow> (Inl err, w')
            | (Inr downloadedImages', w') \<Rightarrow>
                download_batches sys root images batchSize numBatches (batchIdx + 1) downloadedImages' w')
      else (Inr downloadedImages, w))"
  by pat_completeness auto
termination
  by (relation "measure (\<lambda>(sys, root, images, batchSize, numBatches, batchIdx, rest). numBatches - batchIdx)") auto

declare download_batches.simps [simp del]

text \<open>
  With an empty slice \<^verbatim>\<open>batchSize\<close> is 0 and the ceiling division that computes
  \<^verbatim>\<open>numBatches\<close> panics; the panic is the error \<open>DivideByZero\<close>.  \<^verbatim>\<open>sort.Slice\<close> is
  not stable; the model sorts by insertion, and the two agree whenever the keys are
  distinct.
\<close>

definition downloadImages ::
  "dl_sys \<Rightarrow> PageImage list \<Rightarrow> world \<Rightarrow> (error + DownloadedImage list) \<times> world" where
  "downloadImages sys images w =
     (case image_root_result sys of
        Inl err \<Rightarrow> (Inl err, w)
      | Inr root \<Rightarrow>
          (let batchSize = (if length images \<le> 50 then length images else 50) in
           if batchSize = 0 then (Inl DivideByZero, w)
           else
             (let numBatches = (length images + batchSize - 1) div batchSize in
              case download_batches sys root images batchSize numBatches 0 [] w of
                (Inl err, w') \<Rightarrow> (Inl err, w')
              | (Inr downloadedImages, w') \<Rightarrow>
                  if \<not> barCloseOK sys then (Inl ProgressBarErr, w')
                  else (Inr (sort_key OverallOrder downloadedImages), w'))))"

section \<open>captureInteractivePages\<close>

record Args =
  Url_A :: string
  Concurrency :: int
  OutputFolder :: string
  ImageOutputFolder :: string
  Force :: bool
  Interactive :: bool
  TerminalUI :: bool
  BatchSize :: int

text \<open>
  \<^verbatim>\<open>CaptureInteractivePageQuiet\<close> returns the record of an existing file without
  rendering.  Otherwise it drives the browser (two attempts) and writes the screenshot
  with \<^verbatim>\<open>os.WriteFile\<close>; \<open>rendered\<close> tells whether all of that succeeded, and a
  failure leaves no file.
\<close>

definition CaptureInteractivePageQuiet ::
  "bool \<Rightarrow> string \<Rightarrow> string \<Rightarrow> int \<Rightarrow> int \<Rightarrow> world \<Rightarrow> (error + InteractivePageImage) \<times> world" where
  "CaptureInteractivePageQuiet rendered pageUrl outputFolder pageNumber overallOrder w =
     (let fullPath = Join outputFolder (''interactive-'' @ Itoa pageNumber @ ''.png'') in
      if files w fullPath \<noteq> None then
        (Inr \<lparr>PageNumber_I = pageNumber, OverallOrder_I = overallOrder, Url_I = pageUrl,
              FullPath_I = fullPath\<rparr>, w)
      else if rendered then
        (Inr \<lparr>PageNumber_I = pageNumber, OverallOrder_I = overallOrder, Url_I = pageUrl,
              FullPath_I = fullPath\<rparr>,
         w\<lparr>files := (files w)(fullPath \<mapsto> Complete)\<rparr>)
      else (Inl (CaptureErr pageNumber), w))"

text \<open>
  The environment of one run of the capture phase: the outcome of the block that
  resolves or creates the directory, and for every pass (0 the batched pass, 1 the
  sequential retry pass) and page whether the render succeeds.
\<close>

record cap_sys =
  interactive_root_result :: "error + string"
  renderOK :: "nat \<Rightarrow> int \<Rightarrow> bool"

text \<open>\<^verbatim>\<open>for i := 2; i <= len(b.Pages); i += 2\<close>, appending to \<^verbatim>\<open>pagesToCapture\<close>.\<close>

function even_pages :: "int \<Rightarrow> int \<Rightarrow> int list \<Rightarrow> int list" where
  "even_pages i n pagesToCapture =
     (if i \<le> n then even_pages (i + 2) n (pagesToCapture @ [i]) else pagesToCapture)"
  by pat_completeness auto
termination
  by (relation "measure (\<lambda>(i, n, acc). nat (n + 1 - i))") auto

declare even_pages.simps [simp del]

definition pagesToCapture :: "Book \<Rightarrow> int list" where
  "pagesToCapture b = even_pages 2 (int (length (Pages b))) [1]"

text \<open>The record of the odd page that shares the file of an even page: appended when
  the page is even, above 1 and below the number of pages.\<close>

definition odd_page_reference :: "Book \<Rightarrow> int \<Rightarrow> string \<Rightarrow> InteractivePageImage list" where
  "odd_page_reference b pageNumber fullPath =
     (if pageNumber > 1 \<and> pageNumber mod 2 = 0 \<and> pageNumber < int (length (Pages b)) then
        (let oddPageNumber = pageNumber + 1 in
         [\<lparr>PageNumber_I = oddPageNumber, OverallOrder_I = oddPageNumber,
           Url_I = Url_B b @ ''#p='' @ Itoa oddPageNumber, FullPath_I = fullPath\<rparr>])
      else [])"

text \<open>
  One page of a batch.  The state is \<^verbatim>\<open>capturedPages\<close>, \<^verbatim>\<open>failedPages\<close> and the world.
  The closures of a batch run concurrently; each touches the file of its own page only,
  and both slices are sorted after the pass, so the model handles the pages in order.
\<close>

definition capture_page ::
  "cap_sys \<Rightarrow> Book \<Rightarrow> string \<Rightarrow> int \<Rightarrow> InteractivePageImage list \<times> int list \<times> world
     \<Rightarrow> InteractivePageImage list \<times> int list \<times> world" where
  "capture_page sys b interactiveOutputRoot pageNumber st =
     (case st of (capturedPages, failedPages, w) \<Rightarrow>
      (let fullPath = Join interactiveOutputRoot (''interactive-'' @ Itoa pageNumber @ ''.png'') in
       if files w fullPath \<noteq> None then
         (capturedPages
            @ [\<lparr>PageNumber_I = pageNumber, OverallOrder_I = pageNumber,
                Url_I = Url_B b @ ''#p='' @ Itoa pageNumber, FullPath_I = fullPath\<rparr>]
            @ odd_page_reference b pageNumber fullPath,
          failedPages, w)
       else
         (case CaptureInteractivePageQuiet (renderOK sys 0 pageNumber)
                 (Url_B b @ ''#p='' @ Itoa pageNumber) interactiveOutputRoot pageNumber pageNumber w of
            (Inl err, w') \<Rightarrow> (capturedPages, failedPages @ [pageNumber], w')
          | (Inr result, w') \<Rightarrow>
              (capturedPages @ [result] @ odd_page_reference b pageNumber (FullPath_I result),
               failedPages, w'))))"

fun capture_batch ::
  "cap_sys \<Rightarrow> Book \<Rightarrow> string \<Rightarrow> int list \<Rightarrow> InteractivePageImage list \<times> int list \<times> world
     \<Rightarrow> InteractivePageImage list \<times> int list \<times> world" where
  "capture_batch sys b root [] st = st"
| "capture_batch sys b root (pageNumber # rest) st =
     capture_batch sys b root rest (capture_page sys b root pageNumber st)"

function capture_batches ::
  "cap_sys \<Rightarrow> Book \<Rightarrow> string \<Rightarrow> int list \<Rightarrow> nat \<Rightarrow> nat \<Rightarrow> nat
     \<Rightarrow> InteractivePageImage list \<times> int list \<times> world
     \<Rightarrow> InteractivePageImage list \<times> int list \<times> world" where
  "capture_batches sys b root pages batchSize numBatches batchIndex st =
     (if batchIndex < numBatches then
        (let startIdx = batchIndex * batchSize;
             endIdx = (if (batchIndex + 1) * batchSize > length pages then length pages
                       else (batchIndex + 1) * batchSize);
             currentBatch = take (endIdx - startIdx) (drop startIdx pages)
         in capture_batches sys b root pages batchSize numBatches (batchIndex + 1)
              (capture_batch sys b root currentBatch st))
      else st)"
  by pat_completeness auto
termination
  by (relation "measure (\<lambda>(sys, b, root, pages, batchSize, numBatches, batchIndex, st). numBatches - batchIndex)") auto

declare capture_batches.simps [simp del]

text \<open>The sequential retry pass over \<^verbatim>\<open>failedPages\<close>.  The second component of the
  state lists the pages of the message "Still failed to capture page \<dots> on retry".\<close>

fun retry_failed ::
  "cap_sys \<Rightarrow> Book \<Rightarrow> string \<Rightarrow> int list \<Rightarrow> InteractivePageImage list \<times> int list \<times> world
     \<Rightarrow> InteractivePageImage list \<times> int list \<times> world" where
  "retry_failed sys b root [] st = st"
| "retry_failed sys b root (pageNum # rest) st =
     (case st of (capturedPages, stillFailed, w) \<Rightarrow>
       (case CaptureInteractivePageQuiet (renderOK sys 1 pageNum)
               (Url_B b @ ''#p='' @ Itoa pageNum) root pageNum pageNum w of
          (Inl err, w') \<Rightarrow> retry_failed sys b root rest (capturedPages, stillFailed @ [pageNum], w')
        | (Inr result, w') \<Rightarrow>
            retry_failed sys b root rest
              (capturedPages @ [result] @ odd_page_reference b pageNum (FullPath_I result),
               stillFailed, w')))"

definition capture_batchSize :: "Args \<Rightarrow> nat" where
  "capture_batchSize args =
     (let concurrencyLimit = (if Concurrency args > 0 \<and> Concurrency args < 4 then Concurrency args else 4);
          batchSize = (if BatchSize args > 0 then BatchSize args else 8)
      in nat (if batchSize < concurrencyLimit then concurrencyLimit else batchSize))"

text \<open>
  The function returns \<^verbatim>\<open>([]InteractivePageImage, error)\<close>: the first component of the
  model.  The second component is not returned by the Go function; it lists the pages it
  reports as failed at its end: \<^verbatim>\<open>failedPages\<close> of the warning when no retry pass runs,
  the pages of the "Still failed" messages otherwise.
\<close>

definition captureInteractivePages ::
  "cap_sys \<Rightarrow> Args \<Rightarrow> Book \<Rightarrow> world \<Rightarrow> (error + InteractivePageImage list) \<times> int list \<times> world" where
  "captureInteractivePages sys args b w =
     (case interactive_root_result sys of
        Inl err \<Rightarrow> (Inl err, [], w)
      | Inr interactiveOutputRoot \<Rightarrow>
          (let batchSize = capture_batchSize args;
               pages = pagesToCapture b;
               numBatches = (length pages + batchSize - 1) div batchSize
           in case capture_batches sys b interactiveOutputRoot pages batchSize numBatches 0 ([], [], w) of
             (capturedPages, failedPages, w1) \<Rightarrow>
               (let failedPages = (if length failedPages > 0 then sort failedPages else failedPages);
                    capturedPages = sort_key OverallOrder_I capturedPages
                in if length capturedPages = 0 then (Inl NoCaptures, failedPages, w1)
                   else if length failedPages > 0 \<and> length failedPages < length pages then
                     (case retry_failed sys b interactiveOutputRoot failedPages (capturedPages, [], w1) of
                        (capturedPages', stillFailed, w2) \<Rightarrow>
                          (Inr (sort_key OverallOrder_I capturedPages'), stillFailed, w2))
                   else (Inr capturedPages, failedPages, w1))))"

section \<open>generatePDF and generateInteractivePDF\<close>

text \<open>
  \<^verbatim>\<open>pageMap\<close> is a Go map from page number to path: an association list with distinct
  keys.  The keys are collected in the map's iteration order and sorted with
  \<^verbatim>\<open>sort.Ints\<close>; the sorted list of distinct keys does not depend on that order.
  \<^verbatim>\<open>pageMap[num]\<close> of an absent key is the empty string.
\<close>

definition add_downloaded :: "DownloadedImage list \<Rightarrow> (int \<times> string) list \<Rightarrow> (int \<times> string) list" where
  "add_downloaded downloadedImages pageMap =
     fold (\<lambda>img m. AList.update (PageNumber img) (FullPath img) m) downloadedImages pageMap"

definition add_interactive :: "InteractivePageImage list \<Rightarrow> (int \<times> string) list \<Rightarrow> (int \<times> string) list" where
  "add_interactive interactiveImages pageMap =
     fold (\<lambda>intImg m. AList.update (PageNumber_I intImg) (FullPath_I intImg) m) interactiveImages pageMap"

definition build_pageMap :: "DownloadedImage list \<Rightarrow> InteractivePageImage list \<Rightarrow> (int \<times> string) list" where
  "build_pageMap downloadedImages interactiveImages =
     add_interactive interactiveImages (add_downloaded downloadedImages [])"

definition map_index :: "(int \<times> string) list \<Rightarrow> int \<Rightarrow> string" where
  "map_index pageMap num = (case map_of pageMap num of Some p \<Rightarrow> p | None \<Rightarrow> [])"

definition interactive_pageNums :: "DownloadedImage list \<Rightarrow> InteractivePageImage list \<Rightarrow> int list" where
  "interactive_pageNums downloadedImages interactiveImages =
     sort (map fst (build_pageMap downloadedImages interactiveImages))"

definition interactive_images :: "DownloadedImage list \<Rightarrow> InteractivePageImage list \<Rightarrow> string list" where
  "interactive_images downloadedImages interactiveImages =
     map (map_index (build_pageMap downloadedImages interactiveImages))
       (interactive_pageNums downloadedImages interactiveImages)"

text \<open>
  Both functions return an error only; the second component of the model is the list of
  paths handed to \<^verbatim>\<open>ImportImagesFile\<close>, \<open>None\<close> when it is not called.  \<open>encodeOK\<close> is
  the outcome of that call.
\<close>

definition generateInteractivePDF ::
  "bool \<Rightarrow> DownloadedImage list \<Rightarrow> InteractivePageImage list \<Rightarrow> string \<Rightarrow> bool \<Rightarrow> world
     \<Rightarrow> (error + unit) \<times> string list option" where
  "generateInteractivePDF encodeOK downloadedImages interactiveImages pdfPath force w =
     (if files w pdfPath \<noteq> None \<and> \<not> force then (Inl PdfExists, None)
      else (if encodeOK then Inr () else Inl EncodeErr,
            Some (interactive_images downloadedImages interactiveImages)))"

definition generatePDF ::
  "bool \<Rightarrow> DownloadedImage list \<Rightarrow> string \<Rightarrow> bool \<Rightarrow> world \<Rightarrow> (error + unit) \<times> string list option" where
  "generatePDF encodeOK images pdfPath force w =
     (if files w pdfPath \<noteq> None \<and> \<not> force then (Inl PdfExists, None)
      else (if encodeOK then Inr () else Inl EncodeErr, Some (map FullPath images)))"

section \<open>downloadPdf2\<close>

text \<open>\<^verbatim>\<open>sanitizeFilename\<close> deletes every occurrence of nine characters, one after the
  other (\<^verbatim>\<open>strings.ReplaceAll\<close> with the empty string).\<close>

definition invalidChars :: "char list" where
  "invalidChars = [CHR ''/'', CHR 0x5C, CHR '':'', CHR ''*'', CHR ''?'', CHR 0x22, CHR ''<'', CHR ''>'', CHR ''|'']"

definition sanitizeFilename :: "string \<Rightarrow> string" where
  "sanitizeFilename filename = fold (\<lambda>c name. filter (\<lambda>x. x \<noteq> c) name) invalidChars filename"

text \<open>The cap on the number of images: \<^verbatim>\<open>images = images[:1000]\<close> after a warning on
  standard output.\<close>

definition limit_images :: "PageImage list \<Rightarrow> PageImage list" where
  "limit_images images = (if length images > 1000 then take 1000 images else images)"

record pdf_sys =
  sys_url_Parse :: "string \<Rightarrow> URL option"
  sys_downloadHtmlConfig :: "string \<Rightarrow> error + htmlConfig"
  sys_UnescapeString :: "string \<Rightarrow> string"
  NumCPU :: int
  output_dir_result :: "error + string"
  dl :: dl_sys
  cap :: cap_sys
  sys_encodeOK :: bool

text \<open>
  The result is the returned error (or \<^verbatim>\<open>nil\<close>), the list of paths handed to the PDF
  encoder when it is called, and the world after the download and capture phases.
\<close>

definition downloadPdf2 :: "pdf_sys \<Rightarrow> Args \<Rightarrow> world \<Rightarrow> (error + unit) \<times> string list option \<times> world" where
  "downloadPdf2 sys args0 w =
     (let args = (if Concurrency args0 \<le> 0
                  then args0\<lparr>Concurrency := (if NumCPU sys - 1 \<le> 0 then 1 else NumCPU sys - 1)\<rparr>
                  else args0)
      in case Get (sys_url_Parse sys) (sys_downloadHtmlConfig sys) (sys_UnescapeString sys) (Url_A args) of
        Inl err \<Rightarrow> (Inl err, None, w)
      | Inr b \<Rightarrow>
          (case output_dir_result sys of
             Inl err \<Rightarrow> (Inl err, None, w)
           | Inr outputDir \<Rightarrow>
               (let pdfPath = Join outputDir (sanitizeFilename (Title b) @ ''.pdf'') in
                if files w pdfPath \<noteq> None \<and> \<not> Force args then (Inr (), None, w)
                else
                  (case downloadImages (dl sys) (limit_images (FindAllImages b)) w of
                     (Inl err, w1) \<Rightarrow> (Inl err, None, w1)
                   | (Inr downloadedImages, w1) \<Rightarrow>
                       if Interactive args then
                         (case captureInteractivePages (cap sys) args b w1 of
                            (Inl err, failed, w2) \<Rightarrow> (Inl err, None, w2)
                          | (Inr interactiveImages, failed, w2) \<Rightarrow>
                              if length interactiveImages > 0 then
                                (let (r, enc) = generateInteractivePDF (sys_encodeOK sys) downloadedImages
                                                  interactiveImages pdfPath (Force args) w2
                                 in (r, enc, w2))
                              else
                                (let (r, enc) = generatePDF (sys_encodeOK sys) downloadedImages pdfPath (Force args) w2
                                 in (r, enc, w2)))
                       else
                         (let (r, enc) = generatePDF (sys_encodeOK sys) downloadedImages pdfPath (Force args) w1
                          in (r, enc, w1))))))"

section \<open>Notions of the specification\<close>

text \<open>
  The two-segment pattern of an identifier, in words: the string begins with a non-empty
  run of word characters, a slash and a second non-empty run of word characters, and the
  second run ends at the end of the string or before a character that is no word
  character.  \<open>i\<close> is the two runs with the slash between them.
\<close>

definition two_segment_prefix :: "string \<Rightarrow> string \<Rightarrow> bool" where
  "two_segment_prefix s i =
     (\<exists>w1 w2 rest. s = w1 @ ''/'' @ w2 @ rest \<and> i = w1 @ ''/'' @ w2
        \<and> w1 \<noteq> [] \<and> w2 \<noteq> [] \<and> (\<forall>c\<in>set w1. is_word c) \<and> (\<forall>c\<in>set w2. is_word c)
        \<and> (rest = [] \<or> \<not> is_word (hd rest)))"

text \<open>A URL with a non-empty host whose path, without its leading and trailing slashes,
  has that pattern.\<close>

definition url_with_id :: "(string \<Rightarrow> URL option) \<Rightarrow> string \<Rightarrow> string \<Rightarrow> bool" where
  "url_with_id url_Parse s i =
     (\<exists>u. url_Parse s = Some u \<and> Host u \<noteq> [] \<and> two_segment_prefix (Trim (Path u) CHR ''/'') i)"

text \<open>The descriptors of one page, and of all pages from index \<open>i\<close> on: what the loops of
  \<^verbatim>\<open>FindAllImages\<close> append.\<close>

fun page_images :: "int \<Rightarrow> int \<Rightarrow> int \<Rightarrow> string list \<Rightarrow> PageImage list" where
  "page_images i j order [] = []"
| "page_images i j order (u # us) =
     \<lparr>PageNumber = i + 1, ImageNumber = j + 1, OverallOrder = order, Url = u\<rparr>
       # page_images i (j + 1) (order + 1) us"

fun book_images :: "int \<Rightarrow> int \<Rightarrow> Page list \<Rightarrow> PageImage list" where
  "book_images i order [] = []"
| "book_images i order (p # ps) =
     page_images i 0 order (ImageUrls p)
       @ book_images (i + 1) (order + int (length (ImageUrls p))) ps"

text \<open>The string of a JSON string, \<open>None\<close> for any other value.\<close>

fun json_string :: "json \<Rightarrow> string option" where
  "json_string (JString s) = Some s"
| "json_string v = None"

text \<open>A book, a manifest and a URL parser for the examples.\<close>

definition example_config :: htmlConfig where
  "example_config =
     \<lparr>Pages_c = [\<lparr>Images = JString ''p1.jpg'', ThumbUrl = ''t1.jpg''\<rparr>,
                 \<lparr>Images = JArray [JString ''./p2.jpg'', JNumber, JString ''files/large/p3.jpg''],
                  ThumbUrl = ''t2.jpg''\<rparr>],
      Meta_Title = ''Title''\<rparr>"

definition example_url_Parse :: "string \<Rightarrow> URL option" where
  "example_url_Parse s =
     (if s = ''https://host/abcde/fg123/extra''
      then Some \<lparr>Host = ''host'', Path = ''/abcde/fg123/extra''\<rparr>
      else Some \<lparr>Host = [], Path = s\<rparr>)"

definition example_book :: Book where
  "example_book =
     \<lparr>Url_B = ''https://online.fliphtml5.com/abcde/fg123/'', Id = ''abcde/fg123'', Title = ''Title'',
      Pages = [\<lparr>Number = 1, ThumbnailUrl = ''t1.jpg'',
                 ImageUrls = [''https://online.fliphtml5.com/abcde/fg123/files/large/p1.jpg'']\<rparr>,
               \<lparr>Number = 2, ThumbnailUrl = ''t2.jpg'',
                 ImageUrls = [''https://online.fliphtml5.com/abcde/fg123/files/large/p2.jpg'',
                              ''https://online.fliphtml5.com/abcde/fg123/files/large/p3.jpg'']\<rparr>]\<rparr>"

text \<open>Downloaded images of the pages 2 and 3 (page 3 with two images, page 2 listed
  last) and a capture of page 3.\<close>

definition example_downloaded :: "DownloadedImage list" where
  "example_downloaded =
     [\<lparr>PageNumber = 3, ImageNumber = 1, OverallOrder = 2, Url = ''u31'', FullPath = ''/img/3-1.jpg''\<rparr>,
      \<lparr>PageNumber = 3, ImageNumber = 2, OverallOrder = 3, Url = ''u32'', FullPath = ''/img/3-2.jpg''\<rparr>,
      \<lparr>PageNumber = 2, ImageNumber = 1, OverallOrder = 1, Url = ''u21'', FullPath = ''/img/2-1.jpg''\<rparr>]"

definition example_captured :: "InteractivePageImage list" where
  "example_captured =
     [\<lparr>PageNumber_I = 3, OverallOrder_I = 3, Url_I = ''v3'', FullPath_I = ''/cap/interactive-3.png''\<rparr>]"

text \<open>
  The file of the capture of a page, the record of page \<open>k\<close> that points to the file of
  page \<open>n\<close>, and the records of one rendered page according to the specification: the
  page itself and, for an even page below the last page, its successor.
\<close>

definition capture_path :: "string \<Rightarrow> int \<Rightarrow> string" where
  "capture_path root n = Join root (''interactive-'' @ Itoa n @ ''.png'')"

definition page_record :: "Book \<Rightarrow> string \<Rightarrow> int \<Rightarrow> int \<Rightarrow> InteractivePageImage" where
  "page_record b root n k =
     \<lparr>PageNumber_I = k, OverallOrder_I = k, Url_I = Url_B b @ ''#p='' @ Itoa k,
      FullPath_I = capture_path root n\<rparr>"

definition spread_records :: "Book \<Rightarrow> string \<Rightarrow> int \<Rightarrow> InteractivePageImage list" where
  "spread_records b root n =
     (if 2 \<le> n \<and> even n \<and> n < int (length (Pages b))
      then [page_record b root n n, page_record b root n (n + 1)]
      else [page_record b root n n])"

text \<open>A book of seven pages without images, and a capture environment in which every
  render of the first pass succeeds.\<close>

definition seven_pages :: Book where
  "seven_pages =
     \<lparr>Url_B = ''https://online.fliphtml5.com/ab/cd/'', Id = ''ab/cd'', Title = ''T'',
      Pages = map (\<lambda>k. \<lparr>Number = k, ThumbnailUrl = [], ImageUrls = []\<rparr>) [1, 2, 3, 4, 5, 6, 7]\<rparr>"

definition all_render :: cap_sys where
  "all_render = \<lparr>interactive_root_result = Inr ''/cap'', renderOK = (\<lambda>pass n. True)\<rparr>"

definition empty_world :: world where
  "empty_world = \<lparr>files = (\<lambda>p. None), requests = [], sleeps = []\<rparr>"

text \<open>The number a decimal numeral stands for.\<close>

definition dec_val :: "string \<Rightarrow> nat" where
  "dec_val s = foldl (\<lambda>a c. 10 * a + (of_char c - 48)) 0 s"

text \<open>A page counts as captured in a pass when its file exists or its render in that
  pass succeeds.\<close>

definition captured_in_pass :: "cap_sys \<Rightarrow> string \<Rightarrow> world \<Rightarrow> nat \<Rightarrow> int \<Rightarrow> bool" where
  "captured_in_pass sys root w pass n = (files w (capture_path root n) \<noteq> None \<or> renderOK sys pass n)"

text \<open>The files after a pass over the pages \<open>ns\<close>: a missing file whose render succeeds
  is written.\<close>

definition files_after_pass :: "cap_sys \<Rightarrow> string \<Rightarrow> nat \<Rightarrow> int list \<Rightarrow> world \<Rightarrow> world" where
  "files_after_pass sys root pass ns w =
     w\<lparr>files := (\<lambda>p. if files w p = None \<and> (\<exists>n\<in>set ns. renderOK sys pass n \<and> p = capture_path root n)
                      then Some Complete else files w p)\<rparr>"

text \<open>Two books of three and of four pages under one URL, command-line arguments, and a
  capture environment in which every render of page 4 fails.\<close>

definition three_pages :: Book where
  "three_pages =
     \<lparr>Url_B = ''https://online.fliphtml5.com/ab/cd/'', Id = ''ab/cd'', Title = ''T'',
      Pages = map (\<lambda>k. \<lparr>Number = k, ThumbnailUrl = [], ImageUrls = []\<rparr>) [1, 2, 3]\<rparr>"

definition four_pages :: Book where
  "four_pages =
     \<lparr>Url_B = ''https://online.fliphtml5.com/ab/cd/'', Id = ''ab/cd'', Title = ''T'',
      Pages = map (\<lambda>k. \<lparr>Number = k, ThumbnailUrl = [], ImageUrls = []\<rparr>) [1, 2, 3, 4]\<rparr>"

definition example_args :: Args where
  "example_args =
     \<lparr>Url_A = ''ab/cd'', Concurrency = 4, OutputFolder = ''.'', ImageOutputFolder = ''out'',
      Force = False, Interactive = True, TerminalUI = False, BatchSize = 8\<rparr>"

definition page4_fails :: cap_sys where
  "page4_fails = \<lparr>interactive_root_result = Inr ''/cap'', renderOK = (\<lambda>pass n. n \<noteq> 4)\<rparr>"

text \<open>The world in which an attempt starts: the backoff is slept before every attempt but
  the first.  A candidate works in a slot when its request can be built and is answered
  with 200.  The asset made from a descriptor and a path.\<close>

definition backoff :: "nat \<Rightarrow> world \<Rightarrow> world" where
  "backoff attempt w = (if attempt > 0 then w\<lparr>sleeps := sleeps w @ [2 ^ attempt]\<rparr> else w)"


definition asset_of :: "PageImage \<Rightarrow> string \<Rightarrow> DownloadedImage" where
  "asset_of i fullPath =
     \<lparr>PageNumber = PageNumber i, ImageNumber = ImageNumber i, OverallOrder = OverallOrder i,
      Url = Url i, FullPath = fullPath\<rparr>"

text \<open>What an asset and a descriptor say about the image apart from its URL.\<close>

definition asset_core :: "DownloadedImage \<Rightarrow> int \<times> int \<times> int \<times> string" where
  "asset_core d = (PageNumber d, ImageNumber d, OverallOrder d, FullPath d)"

definition descriptor_core :: "string \<Rightarrow> PageImage \<Rightarrow> int \<times> int \<times> int \<times> string" where
  "descriptor_core root i = (PageNumber i, ImageNumber i, OverallOrder i, image_path root i)"




definition env_copy_fails :: dl_env where
  "env_copy_fails =
     \<lparr>newRequestOK = (\<lambda>u. True), clientDo = (\<lambda>attempt slot u. Status 200),
      createOK = (\<lambda>k. True), copyOK = (\<lambda>k. False), flushOK = (\<lambda>k. True), closeOK = (\<lambda>k. True)\<rparr>"


section \<open>Proofs: identifier resolution\<close>

lemma not_word_slash [simp]: "\<not> is_word CHR ''/''"
  by (simp add: is_word_def)

lemma takeWhile_run:
  "(\<forall>c\<in>set w. P c) \<Longrightarrow> rest = [] \<or> \<not> P (hd rest) \<Longrightarrow> takeWhile P (w @ rest) = w"
  by (cases rest) (simp_all add: takeWhile_tail)

lemma dropWhile_run:
  "(\<forall>c\<in>set w. P c) \<Longrightarrow> rest = [] \<or> \<not> P (hd rest) \<Longrightarrow> dropWhile P (w @ rest) = rest"
  by (cases rest) (simp_all add: dropWhile_append)

lemma idRegex_complete:
  assumes "two_segment_prefix s i"
  shows "idRegex_FindStringSubmatch s = Some i"
proof -
  from assms obtain w1 w2 rest where
    s: "s = w1 @ ''/'' @ w2 @ rest" and i: "i = w1 @ ''/'' @ w2"
    and ne: "w1 \<noteq> []" "w2 \<noteq> []"
    and w1: "\<forall>c\<in>set w1. is_word c" and w2: "\<forall>c\<in>set w2. is_word c"
    and rest: "rest = [] \<or> \<not> is_word (hd rest)"
    unfolding two_segment_prefix_def by blast
  have t1: "takeWhile is_word s = w1"
    unfolding s by (rule takeWhile_run [OF w1]) simp
  have d1: "dropWhile is_word s = CHR ''/'' # (w2 @ rest)"
    unfolding s using dropWhile_run [OF w1, of "''/'' @ w2 @ rest"] by simp
  have t2: "takeWhile is_word (w2 @ rest) = w2"
    by (rule takeWhile_run [OF w2 rest])
  show ?thesis
    by (simp add: idRegex_FindStringSubmatch_def t1 d1 t2 ne i)
qed

lemma idRegex_sound:
  assumes "idRegex_FindStringSubmatch s = Some i"
  shows "two_segment_prefix s i"
proof -
  let ?w1 = "takeWhile is_word s"
  from assms have ne1: "?w1 \<noteq> []"
    by (auto simp: idRegex_FindStringSubmatch_def Let_def split: if_splits)
  from assms ne1 obtain r where d1: "dropWhile is_word s = CHR ''/'' # r"
    by (auto simp: idRegex_FindStringSubmatch_def Let_def split: list.splits if_splits)
  let ?w2 = "takeWhile is_word r"
  from assms ne1 d1 have ne2: "?w2 \<noteq> []" and i: "i = ?w1 @ ''/'' @ ?w2"
    by (auto simp: idRegex_FindStringSubmatch_def Let_def split: if_splits)
  have "s = ?w1 @ dropWhile is_word s" by simp
  also have "\<dots> = ?w1 @ ''/'' @ ?w2 @ dropWhile is_word r"
    by (simp add: d1)
  finally have s: "s = ?w1 @ ''/'' @ ?w2 @ dropWhile is_word r" .
  have rest: "dropWhile is_word r = [] \<or> \<not> is_word (hd (dropWhile is_word r))"
    using hd_dropWhile [of is_word r] by blast
  have "\<forall>c\<in>set ?w1. is_word c" "\<forall>c\<in>set ?w2. is_word c"
    by (auto dest: set_takeWhileD)
  with s i ne1 ne2 rest show ?thesis
    unfolding two_segment_prefix_def by blast
qed

lemma idRegex_iff: "idRegex_FindStringSubmatch s = Some i \<longleftrightarrow> two_segment_prefix s i"
  using idRegex_sound idRegex_complete by blast

lemma idRegex_None_iff: "idRegex_FindStringSubmatch s = None \<longleftrightarrow> (\<forall>j. \<not> two_segment_prefix s j)"
  using idRegex_iff [of s] by (cases "idRegex_FindStringSubmatch s") auto

lemma ParseId_Inr_iff:
  "ParseId P s = Inr i \<longleftrightarrow>
     two_segment_prefix s i \<or> ((\<forall>j. \<not> two_segment_prefix s j) \<and> url_with_id P s i)"
proof (cases "idRegex_FindStringSubmatch s")
  case (Some m)
  then have m: "two_segment_prefix s m" by (simp add: idRegex_iff)
  have "two_segment_prefix s i \<longleftrightarrow> m = i"
    using Some idRegex_iff [of s i] by auto
  with Some m show ?thesis
    by (auto simp: ParseId_def)
next
  case None
  then have n: "\<forall>j. \<not> two_segment_prefix s j" by (simp add: idRegex_None_iff)
  show ?thesis
  proof (cases "P s")
    case PNone: None
    with None n show ?thesis by (simp add: ParseId_def url_with_id_def)
  next
    case (Some u)
    show ?thesis
    proof (cases "idRegex_FindStringSubmatch (Trim (Path u) CHR ''/'')")
      case TNone: None
      then have "\<forall>j. \<not> two_segment_prefix (Trim (Path u) CHR ''/'') j"
        by (simp add: idRegex_None_iff)
      with None n Some TNone show ?thesis by (simp add: ParseId_def url_with_id_def)
    next
      case TSome: (Some m)
      have "\<And>j. two_segment_prefix (Trim (Path u) CHR ''/'') j \<longleftrightarrow> m = j"
        unfolding idRegex_iff [symmetric] TSome by auto
      with None n Some TSome show ?thesis by (auto simp: ParseId_def url_with_id_def)
    qed
  qed
qed

lemma ParseId_cases: "(\<exists>i. ParseId P s = Inr i) \<or> ParseId P s = Inl (InvalidId s)"
  by (simp add: ParseId_def split: option.splits)

lemma ParseId_raw_example: "ParseId P ''abcde/fg123'' = Inr ''abcde/fg123''"
  by (simp add: ParseId_def idRegex_FindStringSubmatch_def is_word_def)

lemma idRegex_url_example: "idRegex_FindStringSubmatch ''https://host/abcde/fg123/extra'' = None"
  by (simp add: idRegex_FindStringSubmatch_def is_word_def)

lemma idRegex_path_example:
  "idRegex_FindStringSubmatch (Trim ''/abcde/fg123/extra'' CHR ''/'') = Some ''abcde/fg123''"
  by (simp add: idRegex_FindStringSubmatch_def is_word_def Trim_def)

lemma idRegex_bad_example: "idRegex_FindStringSubmatch ''not-an-id'' = None"
  by (simp add: idRegex_FindStringSubmatch_def is_word_def)

text \<open>
  Claim C7.  \<^verbatim>\<open>ParseId\<close> returns the identifier \<open>i\<close> exactly when the input itself has the
  two-segment pattern with \<open>i\<close> its two segments, or the input has not, is a URL with a
  non-empty host, and the path of the URL (without its outer slashes) has the pattern
  with segments \<open>i\<close>.  For every other input it returns the error.  The input
  \<^verbatim>\<open>abcde/fg123\<close> yields itself; \<^verbatim>\<open>https://host/abcde/fg123/extra\<close>, which
  \<^verbatim>\<open>url.Parse\<close> splits into the host \<^verbatim>\<open>host\<close> and the path \<^verbatim>\<open>/abcde/fg123/extra\<close>,
  yields \<^verbatim>\<open>abcde/fg123\<close>; \<^verbatim>\<open>not-an-id\<close>, in which \<^verbatim>\<open>url.Parse\<close> finds no host,
  fails.
\<close>

theorem ParseId_two_segment:
  "(ParseId P s = Inr i \<longleftrightarrow>
      two_segment_prefix s i \<or> ((\<forall>j. \<not> two_segment_prefix s j) \<and> url_with_id P s i))
   \<and> ((\<forall>j. ParseId P s \<noteq> Inr j) \<longrightarrow> ParseId P s = Inl (InvalidId s))
   \<and> ParseId P ''abcde/fg123'' = Inr ''abcde/fg123''
   \<and> (P ''https://host/abcde/fg123/extra'' = Some \<lparr>Host = ''host'', Path = ''/abcde/fg123/extra''\<rparr>
        \<longrightarrow> ParseId P ''https://host/abcde/fg123/extra'' = Inr ''abcde/fg123'')
   \<and> ((\<forall>u. P ''not-an-id'' = Some u \<longrightarrow> Host u = [])
        \<longrightarrow> ParseId P ''not-an-id'' = Inl (InvalidId ''not-an-id''))"
proof -
  have 1: "ParseId P s = Inr i \<longleftrightarrow>
      two_segment_prefix s i \<or> ((\<forall>j. \<not> two_segment_prefix s j) \<and> url_with_id P s i)"
    by (rule ParseId_Inr_iff)
  have 2: "(\<forall>j. ParseId P s \<noteq> Inr j) \<longrightarrow> ParseId P s = Inl (InvalidId s)"
    using ParseId_cases [of P s] by blast
  have 3: "P ''https://host/abcde/fg123/extra'' = Some \<lparr>Host = ''host'', Path = ''/abcde/fg123/extra''\<rparr>
        \<longrightarrow> ParseId P ''https://host/abcde/fg123/extra'' = Inr ''abcde/fg123''"
    using idRegex_path_example by (simp add: ParseId_def idRegex_url_example)
  have 4: "(\<forall>u. P ''not-an-id'' = Some u \<longrightarrow> Host u = [])
        \<longrightarrow> ParseId P ''not-an-id'' = Inl (InvalidId ''not-an-id'')"
    by (simp add: ParseId_def idRegex_bad_example split: option.splits)
  from 1 2 3 4 ParseId_raw_example show ?thesis by blast
qed

theorem ParseId_two_segment_witness:
  "ParseId example_url_Parse ''https://host/abcde/fg123/extra'' = Inr ''abcde/fg123''
   \<and> url_with_id example_url_Parse ''https://host/abcde/fg123/extra'' ''abcde/fg123''
   \<and> ParseId example_url_Parse ''not-an-id'' = Inl (InvalidId ''not-an-id'')"
proof -
  have a: "example_url_Parse ''https://host/abcde/fg123/extra''
             = Some \<lparr>Host = ''host'', Path = ''/abcde/fg123/extra''\<rparr>"
    by (simp add: example_url_Parse_def)
  have b: "\<forall>u. example_url_Parse ''not-an-id'' = Some u \<longrightarrow> Host u = []"
    by (simp add: example_url_Parse_def)
  have c: "\<not> two_segment_prefix ''https://host/abcde/fg123/extra'' ''abcde/fg123''"
    using idRegex_url_example by (simp add: idRegex_iff [symmetric])
  show ?thesis
    using ParseId_two_segment [of example_url_Parse "''https://host/abcde/fg123/extra''" "''abcde/fg123''"]
      a b c
    by blast
qed

section \<open>Proofs: manifest normalisation\<close>

lemma array_images_eq:
  "array_images id' v images = images @ map (image_url id') (List.map_filter json_string v)"
proof (induction v arbitrary: images)
  case Nil
  show ?case by (simp add: List.map_filter_simps)
next
  case (Cons img v)
  show ?case
    by (cases img) (simp_all add: Cons.IH List.map_filter_simps)
qed

lemma map_filter_json_strings: "List.map_filter json_string (map JString ss) = ss"
  by (induction ss) (simp_all add: List.map_filter_simps)

lemma Get_pages_ImageUrls:
  "map ImageUrls (Get_pages id' i ps pages)
     = map ImageUrls pages @ map (\<lambda>p. page_image_urls id' (Images p)) ps"
  by (induction ps arbitrary: i pages) simp_all

lemma Get_pages_Number:
  "map Number (Get_pages id' i ps pages) = map Number pages @ map (\<lambda>k. i + 1 + int k) [0..<length ps]"
proof (induction ps arbitrary: i pages)
  case Nil
  show ?case by simp
next
  case (Cons p ps)
  have "map (\<lambda>k. i + 1 + int k) [0..<Suc (length ps)]
          = (i + 1) # map (\<lambda>k. i + 1 + 1 + int k) [0..<length ps]"
    by (simp add: upt_conv_Cons map_Suc_upt [symmetric] del: upt_Suc)
  then show ?case
    using Cons.IH [of "i + 1"] by simp
qed

lemma image_url_dot_slash:
  "image_url id' (''./'' @ t) =
     (if HasPrefix t ''files/'' then ''https://online.fliphtml5.com/'' @ id' @ ''/'' @ t
      else ''https://online.fliphtml5.com/'' @ id' @ ''/files/large/'' @ t)"
  by (simp add: image_url_def TrimPrefix_def HasPrefix_def)

lemma image_url_plain:
  "\<not> HasPrefix s ''./'' \<Longrightarrow> image_url id' s =
     (if HasPrefix s ''files/'' then ''https://online.fliphtml5.com/'' @ id' @ ''/'' @ s
      else ''https://online.fliphtml5.com/'' @ id' @ ''/files/large/'' @ s)"
  by (simp add: image_url_def TrimPrefix_def)

lemma image_url_files:
  "image_url id' (''files/'' @ r) = ''https://online.fliphtml5.com/'' @ id' @ ''/files/'' @ r"
  by (simp add: image_url_def TrimPrefix_def HasPrefix_def)

lemma Get_Inr:
  assumes "Get P F U idOrUrl = Inr b"
  shows "\<exists>config. ParseId P idOrUrl = Inr (Id b) \<and> F (Id b) = Inr config
           \<and> Url_B b = ''https://online.fliphtml5.com/'' @ Id b @ ''/''
           \<and> map ImageUrls (Pages b) = map (\<lambda>p. page_image_urls (Id b) (Images p)) (Pages_c config)
           \<and> map Number (Pages b) = map (\<lambda>k. 1 + int k) [0..<length (Pages_c config)]"
  using assms
  by (auto simp: Get_def Get_pages_ImageUrls Get_pages_Number split: sum.splits)

text \<open>
  Claim C6.  A string image field yields the one-element list of its URL, and a list
  field yields the URLs of its strings in order (an element that is no string is
  skipped).  The URL of a filename is built from the filename without one leading
  \<^verbatim>\<open>./\<close>: when the rest begins with \<^verbatim>\<open>files/\<close> it is appended to the root URL of the
  publication as it is, otherwise \<^verbatim>\<open>files/large/\<close> is put before it.  \<^verbatim>\<open>Get\<close> returns
  the pages of the manifest in order, numbered from 1, each with these URLs, and the root
  URL as the URL of the book.
\<close>

theorem image_field_normalisation:
  "page_image_urls id' (JString s) = [image_url id' s]
   \<and> page_image_urls id' (JArray (map JString ss)) = map (image_url id') ss
   \<and> page_image_urls id' (JArray v) = map (image_url id') (List.map_filter json_string v)
   \<and> image_url id' (''./'' @ t) =
       (if HasPrefix t ''files/'' then ''https://online.fliphtml5.com/'' @ id' @ ''/'' @ t
        else ''https://online.fliphtml5.com/'' @ id' @ ''/files/large/'' @ t)
   \<and> (\<not> HasPrefix s ''./'' \<longrightarrow> image_url id' s =
       (if HasPrefix s ''files/'' then ''https://online.fliphtml5.com/'' @ id' @ ''/'' @ s
        else ''https://online.fliphtml5.com/'' @ id' @ ''/files/large/'' @ s))
   \<and> image_url id' (''files/'' @ r) = ''https://online.fliphtml5.com/'' @ id' @ ''/files/'' @ r
   \<and> (Get P F U idOrUrl = Inr b \<longrightarrow>
        (\<exists>config. F (Id b) = Inr config
           \<and> Url_B b = ''https://online.fliphtml5.com/'' @ Id b @ ''/''
           \<and> map ImageUrls (Pages b) = map (\<lambda>p. page_image_urls (Id b) (Images p)) (Pages_c config)
           \<and> map Number (Pages b) = map (\<lambda>k. 1 + int k) [0..<length (Pages_c config)]))"
proof -
  have 1: "page_image_urls id' (JString s) = [image_url id' s]"
    by (simp add: page_image_urls_def)
  have 3: "\<And>v. page_image_urls id' (JArray v) = map (image_url id') (List.map_filter json_string v)"
    by (simp add: page_image_urls_def array_images_eq)
  have 2: "page_image_urls id' (JArray (map JString ss)) = map (image_url id') ss"
    by (simp add: 3 map_filter_json_strings)
  have 7: "Get P F U idOrUrl = Inr b \<longrightarrow>
        (\<exists>config. F (Id b) = Inr config
           \<and> Url_B b = ''https://online.fliphtml5.com/'' @ Id b @ ''/''
           \<and> map ImageUrls (Pages b) = map (\<lambda>p. page_image_urls (Id b) (Images p)) (Pages_c config)
           \<and> map Number (Pages b) = map (\<lambda>k. 1 + int k) [0..<length (Pages_c config)])"
    using Get_Inr [of P F U idOrUrl b] by blast
  from 1 2 3 7 image_url_dot_slash [of id' t] image_url_plain [of s id'] image_url_files [of id' r]
  show ?thesis by blast
qed

lemma Get_example:
  "Get example_url_Parse (\<lambda>i. Inr example_config) (\<lambda>t. t) ''abcde/fg123'' = Inr example_book"
  by (simp add: Get_def ParseId_raw_example example_config_def example_book_def
      page_image_urls_def image_url_def TrimPrefix_def HasPrefix_def)

theorem image_field_normalisation_witness:
  "page_image_urls ''abcde/fg123'' (JString ''p1.jpg'')
     = [''https://online.fliphtml5.com/abcde/fg123/files/large/p1.jpg'']
   \<and> page_image_urls ''abcde/fg123'' (JArray (map JString [''p1.jpg'', ''p2.jpg'']))
     = [''https://online.fliphtml5.com/abcde/fg123/files/large/p1.jpg'',
        ''https://online.fliphtml5.com/abcde/fg123/files/large/p2.jpg'']
   \<and> image_url ''abcde/fg123'' ''./files/large/p3.jpg''
     = ''https://online.fliphtml5.com/abcde/fg123/files/large/p3.jpg''
   \<and> Get example_url_Parse (\<lambda>i. Inr example_config) (\<lambda>t. t) ''abcde/fg123'' = Inr example_book
   \<and> map ImageUrls (Pages example_book)
     = map (\<lambda>p. page_image_urls ''abcde/fg123'' (Images p)) (Pages_c example_config)"
proof -
  have np: "\<not> HasPrefix ''p1.jpg'' ''./''" "\<not> HasPrefix ''p2.jpg'' ''./''"
    by (simp_all add: HasPrefix_def)
  have nf: "\<not> HasPrefix ''p1.jpg'' ''files/''" "\<not> HasPrefix ''p2.jpg'' ''files/''"
    by (simp_all add: HasPrefix_def)
  have f: "HasPrefix ''files/large/p3.jpg'' ''files/''"
    by (simp add: HasPrefix_def)
  have i: "Id example_book = ''abcde/fg123''"
    by (simp add: example_book_def)
  show ?thesis
    using image_field_normalisation [of "''abcde/fg123''" "''p1.jpg''" "[''p1.jpg'', ''p2.jpg'']" "[]"
        "''files/large/p3.jpg''" "''large/p3.jpg''" example_url_Parse "\<lambda>i. Inr example_config" "\<lambda>t. t"
        "''abcde/fg123''" example_book]
      image_field_normalisation [of "''abcde/fg123''" "''p2.jpg''" "[]" "[]" "[]" "[]"
        example_url_Parse "\<lambda>i. Inr example_config" "\<lambda>t. t" "''abcde/fg123''" example_book]
      Get_example np nf f i
    by simp
qed

section \<open>Proofs: FindAllImages\<close>

lemma find_images_inner_eq:
  "find_images_inner i j us (images, order) =
     (images @ page_images i j order us, order + int (length us))"
  by (induction us arbitrary: images order j) simp_all

lemma find_images_outer_eq:
  "find_images_outer i ps (images, order) =
     (images @ book_images i order ps,
      order + int (sum_list (map (\<lambda>p. length (ImageUrls p)) ps)))"
  by (induction ps arbitrary: images order i) (simp_all add: find_images_inner_eq)

lemma FindAllImages_eq: "FindAllImages b = book_images 0 1 (Pages b)"
  by (simp add: FindAllImages_def find_images_outer_eq)

lemma length_page_images [simp]: "length (page_images i j order us) = length us"
  by (induction us arbitrary: j order) simp_all

lemma length_book_images:
  "length (book_images i order ps) = sum_list (map (\<lambda>p. length (ImageUrls p)) ps)"
  by (induction ps arbitrary: i order) simp_all

lemma upto_int_Cons: "[order..order + int (Suc n) - 1] = order # [order + 1..order + 1 + int n - 1]"
  by (simp add: upto_rec1)

lemma upto_int_append:
  "[order..order + int (m + n) - 1] = [order..order + int m - 1] @ [order + int m..order + int m + int n - 1]"
proof (induction m arbitrary: order)
  case 0
  show ?case by simp
next
  case (Suc m)
  have "[order..order + int (Suc m + n) - 1] = order # [order + 1..order + 1 + int (m + n) - 1]"
    using upto_int_Cons [of order "m + n"] by simp
  also have "\<dots> = order # ([order + 1..order + 1 + int m - 1]
                      @ [order + 1 + int m..order + 1 + int m + int n - 1])"
    using Suc.IH [of "order + 1"] by simp
  also have "\<dots> = [order..order + int (Suc m) - 1] @ [order + int (Suc m)..order + int (Suc m) + int n - 1]"
    using upto_int_Cons [of order m] by (simp add: algebra_simps)
  finally show ?case .
qed

lemma order_page_images:
  "map OverallOrder (page_images i j order us) = [order..order + int (length us) - 1]"
proof (induction us arbitrary: j order)
  case Nil
  show ?case by simp
next
  case (Cons u us)
  show ?case
    using Cons.IH [of "j + 1" "order + 1"] upto_int_Cons [of order "length us"] by simp
qed

lemma order_book_images:
  "map OverallOrder (book_images i order ps) = [order..order + int (length (book_images i order ps)) - 1]"
proof (induction ps arbitrary: i order)
  case Nil
  show ?case by simp
next
  case (Cons p ps)
  show ?case
    using Cons.IH [of "i + 1" "order + int (length (ImageUrls p))"]
      upto_int_append [of order "length (ImageUrls p)"
        "length (book_images (i + 1) (order + int (length (ImageUrls p))) ps)"]
    by (simp add: order_page_images)
qed

lemma sorted_wrt_less_upto: "sorted_wrt (<) [a..b::int]"
  by (rule sorted_wrt_mono_rel [where P = "\<lambda>x y. x \<le> y \<and> x \<noteq> y"])
     (auto simp: sorted_wrt_iff_nth_less distinct_conv_nth nth_eq_iff_index_eq)

lemma FindAllImages_orders: "map OverallOrder (FindAllImages b) = [1..int (length (FindAllImages b))]"
  using order_book_images [of 0 1 "Pages b"] by (simp add: FindAllImages_eq)

text \<open>
  Claim C8.  For every book, the global sequence numbers assigned by \<^verbatim>\<open>FindAllImages\<close>
  are, in list order, exactly \<open>1, 2, \<dots>, N\<close>, where \<open>N\<close> is the total number of image URLs
  of all pages; they are strictly increasing, and the descriptors follow the pages and,
  within a page, the image URLs.
\<close>

theorem FindAllImages_order_contiguous:
  "map OverallOrder (FindAllImages b) = [1..int (length (FindAllImages b))]
   \<and> length (FindAllImages b) = sum_list (map (\<lambda>p. length (ImageUrls p)) (Pages b))
   \<and> sorted_wrt (<) (map OverallOrder (FindAllImages b))
   \<and> FindAllImages b = book_images 0 1 (Pages b)"
proof -
  have eq: "map OverallOrder (FindAllImages b) = [1..int (length (FindAllImages b))]"
    by (rule FindAllImages_orders)
  have len: "length (FindAllImages b) = sum_list (map (\<lambda>p. length (ImageUrls p)) (Pages b))"
    by (simp add: FindAllImages_eq length_book_images)
  have "sorted_wrt (<) (map OverallOrder (FindAllImages b))"
    unfolding eq by (rule sorted_wrt_less_upto)
  with eq len FindAllImages_eq show ?thesis by blast
qed

section \<open>Proofs: assembly of the page list\<close>

lemma map_of_fold_update:
  "map_of (fold (\<lambda>x m. AList.update (k x) (v x) m) xs al) n =
     (if n \<in> k ` set xs then Some (v (last (filter (\<lambda>x. k x = n) xs))) else map_of al n)"
proof (induction xs arbitrary: al)
  case Nil
  show ?case by simp
next
  case (Cons x xs)
  show ?case
  proof (cases "n \<in> k ` set xs")
    case True
    then have "filter (\<lambda>x. k x = n) xs \<noteq> []"
      by (auto simp: filter_empty_conv)
    with True show ?thesis
      using Cons.IH [of "AList.update (k x) (v x) al"] by simp
  next
    case False
    then have "filter (\<lambda>x. k x = n) xs = []"
      by (auto simp: filter_empty_conv)
    with False show ?thesis
      using Cons.IH [of "AList.update (k x) (v x) al"] by (auto simp: update_conv')
  qed
qed

lemma keys_fold_update:
  "fst ` set (fold (\<lambda>x m. AList.update (k x) (v x) m) xs al) = k ` set xs \<union> fst ` set al"
  by (induction xs arbitrary: al) (auto simp: dom_update)

lemma distinct_fold_update:
  "distinct (map fst al) \<Longrightarrow> distinct (map fst (fold (\<lambda>x m. AList.update (k x) (v x) m) xs al))"
  by (induction xs arbitrary: al) (simp_all add: distinct_update)

lemma distinct_build_pageMap: "distinct (map fst (build_pageMap ds cs))"
  by (simp add: build_pageMap_def add_interactive_def add_downloaded_def distinct_fold_update)

lemma keys_build_pageMap:
  "fst ` set (build_pageMap ds cs) = PageNumber ` set ds \<union> PageNumber_I ` set cs"
  by (auto simp: build_pageMap_def add_interactive_def add_downloaded_def keys_fold_update)

lemma map_index_build_pageMap:
  "map_index (build_pageMap ds cs) n =
     (if n \<in> PageNumber_I ` set cs then FullPath_I (last (filter (\<lambda>c. PageNumber_I c = n) cs))
      else if n \<in> PageNumber ` set ds then FullPath (last (filter (\<lambda>d. PageNumber d = n) ds))
      else [])"
  by (simp add: map_index_def build_pageMap_def add_interactive_def add_downloaded_def
      map_of_fold_update)

lemma set_interactive_pageNums:
  "set (interactive_pageNums ds cs) = PageNumber ` set ds \<union> PageNumber_I ` set cs"
  using keys_build_pageMap [of ds cs] by (simp add: interactive_pageNums_def)

lemma interactive_images_eq:
  "interactive_images ds cs =
     map (\<lambda>n. if n \<in> PageNumber_I ` set cs
              then FullPath_I (last (filter (\<lambda>c. PageNumber_I c = n) cs))
              else FullPath (last (filter (\<lambda>d. PageNumber d = n) ds)))
       (interactive_pageNums ds cs)"
  unfolding interactive_images_def
  by (rule map_cong [OF refl]) (use set_interactive_pageNums [of ds cs] in \<open>auto simp: map_index_build_pageMap\<close>)

text \<open>
  Claim C1.  For all lists of downloaded and of captured assets, the page numbers of the
  assembly are exactly the page numbers that occur in either list, each once and in
  strictly ascending order, and the emitted list has, for each of them in that order, one
  path: the path of the capture of that page when there is one (of the last one in the
  list, should there be several), otherwise the path of the last downloaded entry of that
  page.  This list is what \<^verbatim>\<open>generateInteractivePDF\<close> hands to the encoder whenever it
  calls it, which it does unless the PDF exists and \<^verbatim>\<open>force\<close> is off.
\<close>

theorem assembly_order_and_precedence:
  "sorted_wrt (<) (interactive_pageNums ds cs)
   \<and> set (interactive_pageNums ds cs) = PageNumber ` set ds \<union> PageNumber_I ` set cs
   \<and> interactive_images ds cs =
       map (\<lambda>n. if n \<in> PageNumber_I ` set cs
                then FullPath_I (last (filter (\<lambda>c. PageNumber_I c = n) cs))
                else FullPath (last (filter (\<lambda>d. PageNumber d = n) ds)))
         (interactive_pageNums ds cs)
   \<and> snd (generateInteractivePDF encodeOK ds cs pdfPath force w)
       = (if files w pdfPath \<noteq> None \<and> \<not> force then None else Some (interactive_images ds cs))"
proof -
  have d: "distinct (interactive_pageNums ds cs)"
    by (simp add: interactive_pageNums_def distinct_build_pageMap)
  have s: "sorted (interactive_pageNums ds cs)"
    by (simp add: interactive_pageNums_def)
  from d s have 1: "sorted_wrt (<) (interactive_pageNums ds cs)"
    by (simp add: strict_sorted_iff)
  show ?thesis
    using 1 set_interactive_pageNums [of ds cs] interactive_images_eq [of ds cs]
    by (simp add: generateInteractivePDF_def)
qed

theorem assembly_order_and_precedence_witness:
  "interactive_pageNums example_downloaded example_captured = [2, 3]
   \<and> interactive_images example_downloaded example_captured = [''/img/2-1.jpg'', ''/cap/interactive-3.png'']
   \<and> interactive_images example_downloaded [] = [''/img/2-1.jpg'', ''/img/3-2.jpg'']"
proof -
  have n: "interactive_pageNums example_downloaded example_captured = [2, 3]"
    "interactive_pageNums example_downloaded [] = [2, 3]"
    by (simp_all add: interactive_pageNums_def build_pageMap_def add_interactive_def
        add_downloaded_def example_downloaded_def example_captured_def)
  show ?thesis
    using assembly_order_and_precedence [of example_downloaded example_captured]
      assembly_order_and_precedence [of example_downloaded "[]"]
    unfolding n
    by (simp add: example_downloaded_def example_captured_def)
qed

section \<open>Proofs: the records of a captured page\<close>

lemma capture_page_eq:
  "capture_page sys b root n (caps, failed, w) =
     (if files w (capture_path root n) \<noteq> None then (caps @ spread_records b root n, failed, w)
      else if renderOK sys 0 n
        then (caps @ spread_records b root n, failed,
              w\<lparr>files := (files w)(capture_path root n \<mapsto> Complete)\<rparr>)
        else (caps, failed @ [n], w))"
  by (auto simp: capture_page_def CaptureInteractivePageQuiet_def spread_records_def
      odd_page_reference_def page_record_def capture_path_def Let_def)

lemma retry_step_eq:
  "retry_failed sys b root (n # rest) (caps, stillFailed, w) =
     (if files w (capture_path root n) \<noteq> None
        then retry_failed sys b root rest (caps @ spread_records b root n, stillFailed, w)
      else if renderOK sys 1 n
        then retry_failed sys b root rest (caps @ spread_records b root n, stillFailed,
              w\<lparr>files := (files w)(capture_path root n \<mapsto> Complete)\<rparr>)
        else retry_failed sys b root rest (caps, stillFailed @ [n], w))"
  by (auto simp: CaptureInteractivePageQuiet_def spread_records_def
      odd_page_reference_def page_record_def capture_path_def Let_def)

text \<open>
  Claim C2.  When the file of page \<open>n\<close> exists or its render succeeds, the batched pass
  (\<open>capture_page\<close>) and the retry pass (\<open>retry_failed\<close>) append for an even page \<open>n\<close> with
  \<open>2 \<le> n\<close> the record of page \<open>n\<close> and, exactly when \<open>n\<close> is below the number of pages, the
  record of page \<open>n + 1\<close>, which has the file path of the record of page \<open>n\<close>; for page 1
  and for an odd page they append the record of the page alone.  A failed render appends
  no record.
\<close>

theorem capture_spread_records:
  "(files w (capture_path root n) \<noteq> None \<or> renderOK sys 0 n \<longrightarrow>
      fst (capture_page sys b root n (caps, failed, w)) =
        caps @ (if 2 \<le> n \<and> even n \<and> n < int (length (Pages b))
                then [page_record b root n n, page_record b root n (n + 1)]
                else [page_record b root n n]))
   \<and> (files w (capture_path root n) \<noteq> None \<or> renderOK sys 1 n \<longrightarrow>
      fst (retry_failed sys b root [n] (caps, failed, w)) =
        caps @ (if 2 \<le> n \<and> even n \<and> n < int (length (Pages b))
                then [page_record b root n n, page_record b root n (n + 1)]
                else [page_record b root n n]))
   \<and> (files w (capture_path root n) = None \<and> \<not> renderOK sys 0 n \<longrightarrow>
      capture_page sys b root n (caps, failed, w) = (caps, failed @ [n], w))
   \<and> FullPath_I (page_record b root n (n + 1)) = FullPath_I (page_record b root n n)
   \<and> PageNumber_I (page_record b root n n) = n
   \<and> PageNumber_I (page_record b root n (n + 1)) = n + 1"
  using capture_page_eq [of sys b root n caps failed w]
    retry_step_eq [of sys b root n "[]" caps failed w]
  by (simp add: spread_records_def page_record_def del: retry_failed.simps(2))

theorem capture_spread_records_witness:
  "fst (capture_page all_render seven_pages ''/cap'' 4 ([], [], empty_world))
     = [page_record seven_pages ''/cap'' 4 4, page_record seven_pages ''/cap'' 4 5]
   \<and> fst (capture_page all_render seven_pages ''/cap'' 6 ([], [], empty_world))
     = [page_record seven_pages ''/cap'' 6 6, page_record seven_pages ''/cap'' 6 7]
   \<and> fst (capture_page all_render seven_pages ''/cap'' 1 ([], [], empty_world))
     = [page_record seven_pages ''/cap'' 1 1]
   \<and> fst (retry_failed all_render seven_pages ''/cap'' [3] ([], [], empty_world))
     = [page_record seven_pages ''/cap'' 3 3]"
  using capture_spread_records [of empty_world "''/cap''" 4 all_render seven_pages "[]" "[]"]
    capture_spread_records [of empty_world "''/cap''" 6 all_render seven_pages "[]" "[]"]
    capture_spread_records [of empty_world "''/cap''" 1 all_render seven_pages "[]" "[]"]
    capture_spread_records [of empty_world "''/cap''" 3 all_render seven_pages "[]" "[]"]
  by (simp add: all_render_def seven_pages_def del: retry_failed.simps(2))

section \<open>Proofs: file names and the pages to capture\<close>

lemma of_char_digit: "d < 10 \<Longrightarrow> (of_char (digit_char d) :: nat) = 48 + d"
  by (simp add: digit_char_def)

lemma dec_val_snoc: "dec_val (s @ [c]) = 10 * dec_val s + (of_char c - 48)"
  by (simp add: dec_val_def)

lemma dec_val_decimal: "dec_val (decimal n) = n"
proof (induction n rule: decimal.induct)
  case (1 n)
  show ?case
  proof (cases "n < 10")
    case True
    then show ?thesis
      by (subst decimal.simps) (simp add: dec_val_def of_char_digit)
  next
    case False
    with "1.IH" have "dec_val (decimal (n div 10)) = n div 10" by simp
    with False show ?thesis
      by (subst decimal.simps) (simp add: dec_val_snoc of_char_digit)
  qed
qed

lemma decimal_inj: "decimal m = decimal n \<Longrightarrow> m = n"
  by (metis dec_val_decimal)

lemma Itoa_inj: "0 \<le> i \<Longrightarrow> 0 \<le> j \<Longrightarrow> Itoa i = Itoa j \<Longrightarrow> i = j"
  using decimal_inj [of "nat i" "nat j"] by (simp add: Itoa_def)

lemma capture_path_inj:
  "0 \<le> i \<Longrightarrow> 0 \<le> j \<Longrightarrow> capture_path root i = capture_path root j \<Longrightarrow> i = j"
  using Itoa_inj [of i j] by (simp add: capture_path_def Join_def)

lemma even_pages_props:
  "distinct acc \<Longrightarrow> (\<forall>k\<in>set acc. 0 \<le> k \<and> k < i) \<Longrightarrow> 0 \<le> i \<Longrightarrow>
     distinct (even_pages i n acc) \<and> (\<forall>k\<in>set (even_pages i n acc). 0 \<le> k)
       \<and> set acc \<subseteq> set (even_pages i n acc)"
proof (induction i n acc rule: even_pages.induct)
  case (1 i n acc)
  show ?case
  proof (cases "i \<le> n")
    case True
    have "distinct (acc @ [i])" "\<forall>k\<in>set (acc @ [i]). 0 \<le> k \<and> k < i + 2" "0 \<le> i + 2"
      using "1.prems" by auto
    with "1.IH" [OF True] True show ?thesis
      by (subst (1 2 3) even_pages.simps) auto
  next
    case False
    with "1.prems" show ?thesis
      by (subst (1 2 3) even_pages.simps) auto
  qed
qed

lemma pagesToCapture_props:
  "distinct (pagesToCapture b)" "\<forall>k\<in>set (pagesToCapture b). 0 \<le> k" "pagesToCapture b \<noteq> []"
  using even_pages_props [of "[1]" 2 "int (length (Pages b))"]
  by (auto simp: pagesToCapture_def)

lemma pagesToCapture_seven: "pagesToCapture seven_pages = [1, 2, 4, 6]"
  by code_simp

section \<open>Proofs: batches cover the slice\<close>

lemma ceil_div_covers:
  assumes "0 < (B::nat)"
  shows "n \<le> (n + B - 1) div B * B"
proof -
  have "n + B - 1 < B + B * ((n + B - 1) div B)"
    using assms by (rule dividend_less_times_div)
  then show ?thesis
    using assms by (simp add: mult.commute)
qed

lemma slice_append_rest:
  "take ((if (k + 1) * B > length xs then length xs else (k + 1) * B) - k * B) (drop (k * B) xs)
     @ drop ((k + 1) * B) xs = drop (k * B) xs"
proof (cases "(k + 1) * B > length xs")
  case True
  then show ?thesis by simp
next
  case False
  have "drop ((k + 1) * B) xs = drop B (drop (k * B) xs)"
    by (simp add: add.commute)
  moreover have "take B (drop (k * B) xs) @ drop B (drop (k * B) xs) = drop (k * B) xs"
    by (rule append_take_drop_id)
  ultimately show ?thesis
    using False by (simp del: drop_drop)
qed

lemma capture_batch_append:
  "capture_batch sys b root (xs @ ys) st = capture_batch sys b root ys (capture_batch sys b root xs st)"
  by (induction xs arbitrary: st) simp_all

lemma capture_batches_eq:
  assumes "length pages \<le> numBatches * B"
  shows "capture_batches sys b root pages B numBatches k st
           = capture_batch sys b root (drop (k * B) pages) st"
proof (induction "numBatches - k" arbitrary: k st)
  case 0
  then have "numBatches \<le> k" by simp
  then have "numBatches * B \<le> k * B" by (rule mult_le_mono1)
  with assms have "length pages \<le> k * B" by (rule le_trans)
  then have "drop (k * B) pages = []" by simp
  with 0 show ?case
    by (subst capture_batches.simps) simp
next
  case (Suc d)
  then have lt: "k < numBatches" and d: "d = numBatches - (k + 1)" by simp_all
  let ?batch = "take ((if (k + 1) * B > length pages then length pages else (k + 1) * B) - k * B)
                  (drop (k * B) pages)"
  have "capture_batches sys b root pages B numBatches k st
          = capture_batches sys b root pages B numBatches (k + 1) (capture_batch sys b root ?batch st)"
    using lt by (subst capture_batches.simps) (simp add: Let_def)
  also have "\<dots> = capture_batch sys b root (drop ((k + 1) * B) pages) (capture_batch sys b root ?batch st)"
    using Suc.hyps(1) [OF d] .
  also have "\<dots> = capture_batch sys b root (?batch @ drop ((k + 1) * B) pages) st"
    by (simp only: capture_batch_append)
  also have "\<dots> = capture_batch sys b root (drop (k * B) pages) st"
    by (simp only: slice_append_rest)
  finally show ?case .
qed

section \<open>Proofs: one pass of the capture phase\<close>

lemma spread_records_nonempty [simp]: "spread_records b root n \<noteq> []"
  by (simp add: spread_records_def)

lemma files_after_pass_Nil [simp]: "files_after_pass sys root pass [] w = w"
  by (simp add: files_after_pass_def)

lemma files_after_pass_existing:
  "files w (capture_path root n) \<noteq> None \<Longrightarrow>
     files_after_pass sys root pass (n # ns) w = files_after_pass sys root pass ns w"
  unfolding files_after_pass_def
  by (rule arg_cong [where f = "\<lambda>f. w\<lparr>files := f\<rparr>"]) (auto simp: fun_eq_iff)

lemma files_after_pass_failed:
  "\<not> renderOK sys pass n \<Longrightarrow>
     files_after_pass sys root pass (n # ns) w = files_after_pass sys root pass ns w"
  unfolding files_after_pass_def
  by (rule arg_cong [where f = "\<lambda>f. w\<lparr>files := f\<rparr>"]) (auto simp: fun_eq_iff)

lemma files_after_pass_rendered:
  "files w (capture_path root n) = None \<Longrightarrow> renderOK sys pass n \<Longrightarrow>
     files_after_pass sys root pass ns (w\<lparr>files := (files w)(capture_path root n \<mapsto> Complete)\<rparr>)
       = files_after_pass sys root pass (n # ns) w"
proof -
  assume a: "files w (capture_path root n) = None" "renderOK sys pass n"
  let ?w1 = "w\<lparr>files := (files w)(capture_path root n \<mapsto> Complete)\<rparr>"
  have "(\<lambda>p. if files ?w1 p = None \<and> (\<exists>m\<in>set ns. renderOK sys pass m \<and> p = capture_path root m)
              then Some Complete else files ?w1 p)
      = (\<lambda>p. if files w p = None \<and> (\<exists>m\<in>set (n # ns). renderOK sys pass m \<and> p = capture_path root m)
              then Some Complete else files w p)"
    using a by (auto simp: fun_eq_iff)
  then show ?thesis
    by (simp add: files_after_pass_def)
qed

lemma captured_in_pass_other:
  assumes "0 \<le> n" "0 \<le> m" "m \<noteq> n"
  shows "captured_in_pass sys root (w\<lparr>files := (files w)(capture_path root n \<mapsto> Complete)\<rparr>) pass m
           = captured_in_pass sys root w pass m"
proof -
  have "capture_path root m \<noteq> capture_path root n"
    using capture_path_inj [of m n root] assms by blast
  then show ?thesis
    by (simp add: captured_in_pass_def)
qed

lemma capture_batch_eq:
  assumes "distinct ns" "\<forall>n\<in>set ns. 0 \<le> n"
  shows "capture_batch sys b root ns (caps, failed, w) =
           (caps @ concat (map (spread_records b root) (filter (captured_in_pass sys root w 0) ns)),
            failed @ filter (\<lambda>n. \<not> captured_in_pass sys root w 0 n) ns,
            files_after_pass sys root 0 ns w)"
  using assms
proof (induction ns arbitrary: caps failed w)
  case Nil
  show ?case by simp
next
  case (Cons n ns)
  then have dist: "distinct ns" and nonneg: "\<forall>m\<in>set ns. 0 \<le> m"
    and n: "0 \<le> n" and notin: "n \<notin> set ns"
    by simp_all
  note IH = Cons.IH [OF dist nonneg]
  consider (existing) "files w (capture_path root n) \<noteq> None"
    | (rendered) "files w (capture_path root n) = None" "renderOK sys 0 n"
    | (failed) "files w (capture_path root n) = None" "\<not> renderOK sys 0 n"
    by blast
  then show ?case
  proof cases
    case existing
    then have c: "captured_in_pass sys root w 0 n"
      by (simp add: captured_in_pass_def)
    show ?thesis
      using existing c IH [of "caps @ spread_records b root n" failed w]
      by (simp add: capture_page_eq files_after_pass_existing)
  next
    case rendered
    let ?w1 = "w\<lparr>files := (files w)(capture_path root n \<mapsto> Complete)\<rparr>"
    have c: "captured_in_pass sys root w 0 n"
      using rendered by (simp add: captured_in_pass_def)
    have same: "\<And>m. m \<in> set ns \<Longrightarrow>
        captured_in_pass sys root ?w1 0 m = captured_in_pass sys root w 0 m"
      using captured_in_pass_other [OF n] nonneg notin by blast
    have f1: "filter (captured_in_pass sys root ?w1 0) ns = filter (captured_in_pass sys root w 0) ns"
      by (rule filter_cong [OF refl]) (rule same)
    have f2: "filter (\<lambda>m. \<not> captured_in_pass sys root ?w1 0 m) ns
                = filter (\<lambda>m. \<not> captured_in_pass sys root w 0 m) ns"
      by (rule filter_cong [OF refl]) (simp add: same)
    show ?thesis
      using rendered c IH [of "caps @ spread_records b root n" failed ?w1]
      by (simp add: capture_page_eq f1 f2 files_after_pass_rendered)
  next
    case failed
    then have c: "\<not> captured_in_pass sys root w 0 n"
      by (simp add: captured_in_pass_def)
    show ?thesis
      using failed c IH [of caps "failed @ [n]" w]
      by (simp add: capture_page_eq files_after_pass_failed)
  qed
qed

lemma retry_failed_as_batch:
  "retry_failed sys b root ns (caps, stillFailed, w)
     = capture_batch (sys\<lparr>renderOK := (\<lambda>pass. renderOK sys 1)\<rparr>) b root ns (caps, stillFailed, w)"
proof (induction ns arbitrary: caps stillFailed w)
  case Nil
  show ?case by simp
next
  case (Cons n ns)
  show ?case
    using retry_step_eq [of sys b root n ns caps stillFailed w]
    by (simp add: capture_page_eq Cons.IH del: retry_failed.simps(2))
qed

lemma retry_failed_eq:
  assumes "distinct ns" "\<forall>n\<in>set ns. 0 \<le> n"
  shows "retry_failed sys b root ns (caps, stillFailed, w) =
           (caps @ concat (map (spread_records b root) (filter (captured_in_pass sys root w 1) ns)),
            stillFailed @ filter (\<lambda>n. \<not> captured_in_pass sys root w 1 n) ns,
            files_after_pass sys root 1 ns w)"
proof -
  let ?sys = "sys\<lparr>renderOK := (\<lambda>pass. renderOK sys 1)\<rparr>"
  have c: "captured_in_pass ?sys root w 0 = captured_in_pass sys root w 1"
    by (simp add: captured_in_pass_def fun_eq_iff)
  have f: "files_after_pass ?sys root 0 ns w = files_after_pass sys root 1 ns w"
    by (simp add: files_after_pass_def)
  show ?thesis
    using capture_batch_eq [OF assms, of ?sys b root caps stillFailed w]
    unfolding retry_failed_as_batch c f .
qed

section \<open>Proofs: the capture phase\<close>

lemma capture_batchSize_pos: "0 < capture_batchSize args"
  by (simp add: capture_batchSize_def Let_def)

lemma capture_all_batches:
  "capture_batches sys b root pages (capture_batchSize args)
     ((length pages + capture_batchSize args - Suc 0) div capture_batchSize args) 0 st
     = capture_batch sys b root pages st"
  using capture_batches_eq [OF ceil_div_covers [OF capture_batchSize_pos, of "length pages" args],
      of sys b root 0 st]
  by simp

lemma sort_key_Nil_iff: "sort_key f xs = [] \<longleftrightarrow> xs = []"
  by (metis length_sort length_0_conv)

lemma concat_spread_Nil:
  "concat (map (spread_records b root) ns) = [] \<longleftrightarrow> ns = []"
  by (cases ns) simp_all

lemma files_after_pass_none:
  "\<forall>n\<in>set ns. \<not> captured_in_pass sys root w pass n \<Longrightarrow> files_after_pass sys root pass ns w = w"
proof -
  assume a: "\<forall>n\<in>set ns. \<not> captured_in_pass sys root w pass n"
  have "(\<lambda>p. if files w p = None \<and> (\<exists>n\<in>set ns. renderOK sys pass n \<and> p = capture_path root n)
             then Some Complete else files w p) = files w"
    using a by (auto simp: fun_eq_iff captured_in_pass_def)
  then show ?thesis
    by (simp add: files_after_pass_def)
qed

lemma failed_page_has_no_file:
  assumes "\<forall>m\<in>set ns. 0 \<le> m" "n \<in> set ns" "\<not> captured_in_pass sys root w 0 n"
  shows "files (files_after_pass sys root 0 ns w) (capture_path root n) = None"
proof -
  have "\<not> (\<exists>m\<in>set ns. renderOK sys 0 m \<and> capture_path root n = capture_path root m)"
  proof
    assume "\<exists>m\<in>set ns. renderOK sys 0 m \<and> capture_path root n = capture_path root m"
    then obtain m where m: "m \<in> set ns" "renderOK sys 0 m" "capture_path root n = capture_path root m"
      by blast
    with assms have "n = m"
      using capture_path_inj [of n m root] by blast
    with m assms(3) show False
      by (simp add: captured_in_pass_def)
  qed
  with assms(3) show ?thesis
    by (simp add: files_after_pass_def captured_in_pass_def)
qed

text \<open>The whole phase, as a function of the files at its start and of the renders.\<close>

lemma captureInteractivePages_eq:
  assumes root: "interactive_root_result sys = Inr root"
  shows "captureInteractivePages sys args b w =
    (let pages = pagesToCapture b;
         got = filter (captured_in_pass sys root w 0) pages;
         failed = sort (filter (\<lambda>n. \<not> captured_in_pass sys root w 0 n) pages);
         caps = sort_key OverallOrder_I (concat (map (spread_records b root) got));
         w1 = files_after_pass sys root 0 pages w
     in if got = [] then (Inl NoCaptures, failed, w)
        else if failed = [] then (Inr caps, [], w1)
        else (Inr (sort_key OverallOrder_I
                    (caps @ concat (map (spread_records b root) (filter (renderOK sys 1) failed)))),
              filter (\<lambda>n. \<not> renderOK sys 1 n) failed,
              files_after_pass sys root 1 failed w1))"
proof -
  let ?pages = "pagesToCapture b"
  let ?got = "filter (captured_in_pass sys root w 0) ?pages"
  let ?failedA = "filter (\<lambda>n. \<not> captured_in_pass sys root w 0 n) ?pages"
  let ?failed = "sort ?failedA"
  let ?capsA = "concat (map (spread_records b root) ?got)"
  let ?caps = "sort_key OverallOrder_I ?capsA"
  let ?w1 = "files_after_pass sys root 0 ?pages w"
  have props: "distinct ?pages" "\<forall>k\<in>set ?pages. 0 \<le> k"
    by (rule pagesToCapture_props)+
  have pass0: "capture_batches sys b root ?pages (capture_batchSize args)
      ((length ?pages + capture_batchSize args - Suc 0) div capture_batchSize args) 0 ([], [], w)
      = (?capsA, ?failedA, ?w1)"
    using capture_batch_eq [OF props, of sys b root "[]" "[]" w]
    by (simp add: capture_all_batches)
  have sortfailed: "(if length ?failedA > 0 then sort ?failedA else ?failedA) = ?failed"
    by simp
  have caps_Nil: "?caps = [] \<longleftrightarrow> ?got = []"
    by (simp only: sort_key_Nil_iff concat_spread_Nil)
  show ?thesis
  proof (cases "?got = []")
    case True
    then have "\<forall>n\<in>set ?pages. \<not> captured_in_pass sys root w 0 n"
      by (simp add: filter_empty_conv)
    then have "?w1 = w"
      by (rule files_after_pass_none)
    with True show ?thesis
      unfolding captureInteractivePages_def root
      by (simp add: pass0 Let_def caps_Nil)
  next
    case False
    then have some: "\<exists>n\<in>set ?pages. captured_in_pass sys root w 0 n"
      by (simp add: filter_empty_conv)
    then obtain n where n: "n \<in> set ?pages" "\<not> \<not> captured_in_pass sys root w 0 n"
      by blast
    have shorter: "length ?failedA < length ?pages"
      using n by (rule length_filter_less)
    show ?thesis
    proof (cases "?failedA = []")
      case True
      with False show ?thesis
        unfolding captureInteractivePages_def root
        by (simp add: pass0 Let_def caps_Nil)
    next
      case nonempty: False
      have d: "distinct ?failed" and nn: "\<forall>n\<in>set ?failed. 0 \<le> n"
        using props by auto
      have nofile: "\<And>n. n \<in> set ?failed \<Longrightarrow> files ?w1 (capture_path root n) = None"
        using failed_page_has_no_file [OF props(2), of _ sys root w] by simp
      have c1: "filter (captured_in_pass sys root ?w1 1) ?failed = filter (renderOK sys 1) ?failed"
        by (rule filter_cong [OF refl]) (simp add: captured_in_pass_def nofile)
      have c2: "filter (\<lambda>n. \<not> captured_in_pass sys root ?w1 1 n) ?failed
                  = filter (\<lambda>n. \<not> renderOK sys 1 n) ?failed"
        by (rule filter_cong [OF refl]) (simp add: captured_in_pass_def nofile)
      have retry: "retry_failed sys b root ?failed (?caps, [], ?w1) =
          (?caps @ concat (map (spread_records b root) (filter (renderOK sys 1) ?failed)),
           filter (\<lambda>n. \<not> renderOK sys 1 n) ?failed,
           files_after_pass sys root 1 ?failed ?w1)"
        using retry_failed_eq [OF d nn, of sys b root ?caps "[]" ?w1]
        by (simp only: c1 c2 append_Nil)
      have ne: "?failed \<noteq> []"
        using nonempty by (metis length_sort list.size(3) length_0_conv)
      show ?thesis
        unfolding captureInteractivePages_def root
        using False nonempty ne shorter
        by (simp add: pass0 Let_def caps_Nil retry)
    qed
  qed
qed

lemma capture_root_error:
  "interactive_root_result sys = Inl e0 \<Longrightarrow> captureInteractivePages sys args b w = (Inl e0, [], w)"
  by (simp add: captureInteractivePages_def)

lemma capture_phase_error_iff:
  assumes "interactive_root_result sys = Inr root"
  shows "(\<exists>e. fst (captureInteractivePages sys args b w) = Inl e)
           \<longleftrightarrow> (\<forall>n\<in>set (pagesToCapture b). \<not> captured_in_pass sys root w 0 n)"
  by (auto simp: captureInteractivePages_eq [OF assms] Let_def filter_empty_conv)

lemma capture_phase_error:
  assumes "interactive_root_result sys = Inr root"
    and "fst (captureInteractivePages sys args b w) = Inl e"
  shows "e = NoCaptures \<and> snd (snd (captureInteractivePages sys args b w)) = w"
  using assms(2)
  by (auto simp: captureInteractivePages_eq [OF assms(1)] Let_def split: if_splits)

lemma capture_phase_success:
  assumes root: "interactive_root_result sys = Inr root"
    and res: "fst (captureInteractivePages sys args b w) = Inr caps"
  shows "set caps = (\<Union>n\<in>{n \<in> set (pagesToCapture b). captured_in_pass sys root w 0 n \<or> renderOK sys 1 n}.
                       set (spread_records b root n))"
    and "sorted (map OverallOrder_I caps)"
    and "set (fst (snd (captureInteractivePages sys args b w)))
           = {n \<in> set (pagesToCapture b). \<not> captured_in_pass sys root w 0 n \<and> \<not> renderOK sys 1 n}"
proof -
  let ?pages = "pagesToCapture b"
  let ?got = "filter (captured_in_pass sys root w 0) ?pages"
  let ?failed = "sort (filter (\<lambda>n. \<not> captured_in_pass sys root w 0 n) ?pages)"
  let ?capsA = "sort_key OverallOrder_I (concat (map (spread_records b root) ?got))"
  note eq = captureInteractivePages_eq [OF root, of args b w]
  from res eq have got: "?got \<noteq> []"
    by (auto simp: Let_def split: if_splits)
  show "sorted (map OverallOrder_I caps)"
    using res eq by (auto simp: Let_def split: if_splits)
  show "set caps = (\<Union>n\<in>{n \<in> set ?pages. captured_in_pass sys root w 0 n \<or> renderOK sys 1 n}.
                       set (spread_records b root n))"
  proof (cases "?failed = []")
    case True
    then have all: "\<forall>n\<in>set ?pages. captured_in_pass sys root w 0 n"
      by (metis (mono_tags, lifting) filter_empty_conv length_sort length_0_conv)
    from True got res eq have "caps = ?capsA"
      by (simp add: Let_def)
    then show ?thesis
      using all by auto
  next
    case False
    with got res eq have "caps = sort_key OverallOrder_I
        (?capsA @ concat (map (spread_records b root) (filter (renderOK sys 1) ?failed)))"
      by (simp add: Let_def)
    then show ?thesis
      by auto
  qed
  show "set (fst (snd (captureInteractivePages sys args b w)))
           = {n \<in> set ?pages. \<not> captured_in_pass sys root w 0 n \<and> \<not> renderOK sys 1 n}"
  proof (cases "?failed = []")
    case True
    then have all: "\<forall>n\<in>set ?pages. captured_in_pass sys root w 0 n"
      by (metis (mono_tags, lifting) filter_empty_conv length_sort length_0_conv)
    from True got eq show ?thesis
      using all by (auto simp: Let_def)
  next
    case False
    with got eq show ?thesis
      by (auto simp: Let_def)
  qed
qed

lemma capture_run_page4_fails:
  "fst (captureInteractivePages page4_fails example_args four_pages empty_world) =
     Inr [page_record four_pages ''/cap'' 1 1, page_record four_pages ''/cap'' 2 2,
          page_record four_pages ''/cap'' 2 3]
   \<and> fst (snd (captureInteractivePages page4_fails example_args four_pages empty_world)) = [4]"
proof -
  have r: "interactive_root_result page4_fails = Inr ''/cap''"
    by (simp add: page4_fails_def)
  have p: "pagesToCapture four_pages = [1, 2, 4]"
    by code_simp
  have s: "spread_records four_pages ''/cap'' 1 = [page_record four_pages ''/cap'' 1 1]"
    "spread_records four_pages ''/cap'' 2
       = [page_record four_pages ''/cap'' 2 2, page_record four_pages ''/cap'' 2 3]"
    by (simp_all add: spread_records_def four_pages_def)
  have c: "captured_in_pass page4_fails ''/cap'' empty_world 0 = (\<lambda>n. n \<noteq> 4)"
    by (simp add: captured_in_pass_def page4_fails_def empty_world_def fun_eq_iff)
  have k: "renderOK page4_fails 1 = (\<lambda>n. n \<noteq> 4)"
    by (simp add: page4_fails_def)
  show ?thesis
    unfolding captureInteractivePages_eq [OF r] p c k
    by (simp add: s page_record_def Let_def)
qed

lemma capture_run_three_pages:
  "fst (captureInteractivePages all_render example_args three_pages empty_world) =
     Inr [page_record three_pages ''/cap'' 1 1, page_record three_pages ''/cap'' 2 2,
          page_record three_pages ''/cap'' 2 3]
   \<and> fst (snd (captureInteractivePages all_render example_args three_pages empty_world)) = []"
proof -
  have r: "interactive_root_result all_render = Inr ''/cap''"
    by (simp add: all_render_def)
  have p: "pagesToCapture three_pages = [1, 2]"
    by code_simp
  have s: "spread_records three_pages ''/cap'' 1 = [page_record three_pages ''/cap'' 1 1]"
    "spread_records three_pages ''/cap'' 2
       = [page_record three_pages ''/cap'' 2 2, page_record three_pages ''/cap'' 2 3]"
    by (simp_all add: spread_records_def three_pages_def)
  have c: "captured_in_pass all_render ''/cap'' empty_world 0 = (\<lambda>n. True)"
    by (simp add: captured_in_pass_def all_render_def fun_eq_iff)
  show ?thesis
    unfolding captureInteractivePages_eq [OF r] p c
    by (simp add: s page_record_def Let_def)
qed

text \<open>
  Claim C4, as the code has it.  When the directory cannot be prepared the phase returns
  that error.  Otherwise it returns an error exactly when no page is captured in the
  batched pass (no file exists and no render succeeds); the error is then
  \<open>NoCaptures\<close>, the retry pass does not run and no file is written.  When it succeeds,
  the returned list holds exactly the records of the pages captured in the batched pass
  or in the retry pass, sorted by page number.  The page numbers that failed in both
  passes are the second component of the model: the function prints them and returns
  the records only.
\<close>

theorem capture_phase_result:
  "(interactive_root_result sys = Inl e0 \<longrightarrow> captureInteractivePages sys args b w = (Inl e0, [], w))
   \<and> (interactive_root_result sys = Inr root \<longrightarrow>
        ((\<exists>e. fst (captureInteractivePages sys args b w) = Inl e)
           \<longleftrightarrow> (\<forall>n\<in>set (pagesToCapture b). \<not> captured_in_pass sys root w 0 n))
        \<and> (\<forall>e. fst (captureInteractivePages sys args b w) = Inl e
              \<longrightarrow> e = NoCaptures \<and> snd (snd (captureInteractivePages sys args b w)) = w)
        \<and> (\<forall>caps. fst (captureInteractivePages sys args b w) = Inr caps \<longrightarrow>
              set caps = (\<Union>n\<in>{n \<in> set (pagesToCapture b).
                                 captured_in_pass sys root w 0 n \<or> renderOK sys 1 n}.
                            set (spread_records b root n))
              \<and> sorted (map OverallOrder_I caps)
              \<and> set (fst (snd (captureInteractivePages sys args b w)))
                  = {n \<in> set (pagesToCapture b).
                       \<not> captured_in_pass sys root w 0 n \<and> \<not> renderOK sys 1 n}))"
  using capture_root_error [of sys e0 args b w]
    capture_phase_error_iff [of sys root args b w]
    capture_phase_error [of sys root args b w]
    capture_phase_success [of sys root args b w]
  by blast

theorem capture_phase_result_witness:
  "fst (captureInteractivePages page4_fails example_args four_pages empty_world)
     = Inr [page_record four_pages ''/cap'' 1 1, page_record four_pages ''/cap'' 2 2,
            page_record four_pages ''/cap'' 2 3]
   \<and> set [page_record four_pages ''/cap'' 1 1, page_record four_pages ''/cap'' 2 2,
           page_record four_pages ''/cap'' 2 3]
       = (\<Union>n\<in>{n \<in> set (pagesToCapture four_pages).
                  captured_in_pass page4_fails ''/cap'' empty_world 0 n \<or> renderOK page4_fails 1 n}.
             set (spread_records four_pages ''/cap'' n))
   \<and> {n \<in> set (pagesToCapture four_pages).
         \<not> captured_in_pass page4_fails ''/cap'' empty_world 0 n \<and> \<not> renderOK page4_fails 1 n} = {4}"
proof -
  have r: "interactive_root_result page4_fails = Inr ''/cap''"
    by (simp add: page4_fails_def)
  show ?thesis
    using capture_phase_result [of page4_fails _ example_args four_pages empty_world "''/cap''"] r
    by (simp add: capture_run_page4_fails)
qed

text \<open>
  Against claim C4 as stated: the value returned for a book of four pages whose page 4
  fails in both passes is the value returned for a book of three pages without any
  failure.  The returned value does not hold the page numbers that still failed.
\<close>

theorem capture_failed_pages_not_returned:
  "fst (captureInteractivePages page4_fails example_args four_pages empty_world)
     = fst (captureInteractivePages all_render example_args three_pages empty_world)
   \<and> fst (captureInteractivePages page4_fails example_args four_pages empty_world)
     = Inr [\<lparr>PageNumber_I = 1, OverallOrder_I = 1, Url_I = ''https://online.fliphtml5.com/ab/cd/#p=1'',
             FullPath_I = ''/cap/interactive-1.png''\<rparr>,
            \<lparr>PageNumber_I = 2, OverallOrder_I = 2, Url_I = ''https://online.fliphtml5.com/ab/cd/#p=2'',
             FullPath_I = ''/cap/interactive-2.png''\<rparr>,
            \<lparr>PageNumber_I = 3, OverallOrder_I = 3, Url_I = ''https://online.fliphtml5.com/ab/cd/#p=3'',
             FullPath_I = ''/cap/interactive-2.png''\<rparr>]
   \<and> fst (snd (captureInteractivePages page4_fails example_args four_pages empty_world)) = [4]
   \<and> fst (snd (captureInteractivePages all_render example_args three_pages empty_world)) = []"
proof -
  have i: "Itoa 1 = ''1''" "Itoa 2 = ''2''" "Itoa 3 = ''3''"
    by code_simp+
  have four: "[page_record four_pages ''/cap'' 1 1, page_record four_pages ''/cap'' 2 2,
               page_record four_pages ''/cap'' 2 3]
     = [\<lparr>PageNumber_I = 1, OverallOrder_I = 1, Url_I = ''https://online.fliphtml5.com/ab/cd/#p=1'',
         FullPath_I = ''/cap/interactive-1.png''\<rparr>,
        \<lparr>PageNumber_I = 2, OverallOrder_I = 2, Url_I = ''https://online.fliphtml5.com/ab/cd/#p=2'',
         FullPath_I = ''/cap/interactive-2.png''\<rparr>,
        \<lparr>PageNumber_I = 3, OverallOrder_I = 3, Url_I = ''https://online.fliphtml5.com/ab/cd/#p=3'',
         FullPath_I = ''/cap/interactive-2.png''\<rparr>]"
    by (simp add: page_record_def capture_path_def Join_def i four_pages_def)
  have three: "[page_record three_pages ''/cap'' 1 1, page_record three_pages ''/cap'' 2 2,
                page_record three_pages ''/cap'' 2 3]
     = [page_record four_pages ''/cap'' 1 1, page_record four_pages ''/cap'' 2 2,
        page_record four_pages ''/cap'' 2 3]"
    by (simp add: page_record_def four_pages_def three_pages_def)
  show ?thesis
    using capture_run_page4_fails capture_run_three_pages
    by (simp only: three four simp_thms)
qed

section \<open>Proofs: one attempt of Download\<close>

lemma write_file_props:
  assumes "write_file env k p w = (r, w')"
  shows "sleeps w' = sleeps w" and "requests w' = requests w"
    and "\<And>q. q \<noteq> p \<Longrightarrow> files w' q = files w q"
    and "r = None \<Longrightarrow> files w' p = Some Complete"
    and "r \<noteq> None \<Longrightarrow> files w p = None \<Longrightarrow> files w' p = None"
  using assms by (auto simp: write_file_def Let_def split: if_splits)

lemma write_file_removes:
  "createOK env k \<Longrightarrow> \<not> copyOK env k \<or> \<not> flushOK env k \<or> \<not> closeOK env k \<Longrightarrow>
     fst (write_file env k p w) \<noteq> None \<and> files (snd (write_file env k p w)) p = None"
  by (auto simp: write_file_def Let_def)

lemma try_candidates_props:
  assumes "try_candidates env k slot cs w = (r, w')"
  shows "files w' = files w \<and> sleeps w' = sleeps w
         \<and> (\<exists>rq. requests w' = requests w @ rq \<and> set rq \<subseteq> set cs)
         \<and> (\<forall>alt. r = Some alt \<longrightarrow> alt \<in> set cs \<and> newRequestOK env alt)"
  using assms
proof (induction cs arbitrary: slot w)
  case Nil
  then show ?case by simp
next
  case (Cons alt rest)
  show ?case
  proof (cases "newRequestOK env alt")
    case False
    with Cons.prems have "try_candidates env k (slot + 1) rest w = (r, w')" by simp
    from Cons.IH [OF this] show ?thesis by auto
  next
    case True
    let ?w1 = "w\<lparr>requests := requests w @ [alt]\<rparr>"
    show ?thesis
    proof (cases "clientDo env k slot alt = Status StatusOK")
      case ok: True
      with True Cons.prems show ?thesis by (auto simp: Let_def)
    next
      case no: False
      with True Cons.prems have "try_candidates env k (slot + 1) rest ?w1 = (r, w')"
        by (simp add: Let_def)
      from Cons.IH [OF this] show ?thesis by auto
    qed
  qed
qed

text \<open>An attempt first talks to the network, which changes the request log only, and
  then either gives up or runs \<open>write_file\<close>.\<close>

lemma attempt_body_shape:
  assumes "attempt_body env p k i w = (r, i', w')"
  shows "\<exists>w1. files w1 = files w \<and> sleeps w1 = sleeps w
           \<and> (\<exists>rq. requests w1 = requests w @ rq)
           \<and> PageNumber i' = PageNumber i \<and> ImageNumber i' = ImageNumber i
           \<and> OverallOrder i' = OverallOrder i
           \<and> ((r \<noteq> None \<and> w' = w1) \<or> write_file env k p w1 = (r, w'))"
proof (cases "newRequestOK env (Url i)")
  case False
  with assms show ?thesis
    by (auto simp: attempt_body_def)
next
  case req: True
  let ?w1 = "w\<lparr>requests := requests w @ [Url i]\<rparr>"
  show ?thesis
  proof (cases "clientDo env k 0 (Url i)")
    case NetErr
    with req assms have "r = Some TransportErr" "i' = i" "w' = ?w1"
      by (auto simp: attempt_body_def Let_def)
    then show ?thesis
      by (intro exI [of _ ?w1]) simp
  next
    case (Status code)
    show ?thesis
    proof (cases "code = StatusOK")
      case True
      with req Status assms have "write_file env k p ?w1 = (r, w')" "i' = i"
        by (auto simp: attempt_body_def Let_def split: prod.splits)
      then show ?thesis
        by (intro exI [of _ ?w1]) simp
    next
      case bad: False
      obtain c w2 where tc: "try_candidates env k 1 (candidates (Url i)) ?w1 = (c, w2)"
        by (cases "try_candidates env k 1 (candidates (Url i)) ?w1")
      from try_candidates_props [OF tc]
      have w2: "files w2 = files w" "sleeps w2 = sleeps w" "\<exists>rq. requests w2 = requests w @ rq"
        by auto
      show ?thesis
      proof (cases c)
        case (Some alt)
        with req Status bad tc assms have "write_file env k p w2 = (r, w')" "i' = i\<lparr>Url := alt\<rparr>"
          by (auto simp: attempt_body_def Let_def split: prod.splits)
        with w2 show ?thesis
          by (intro exI [of _ w2]) simp
      next
        case None
        let ?altUrl = "Replace1 (Url i) ''/files/large/'' ''/files/''"
        let ?w3 = "w2\<lparr>requests := requests w2 @ [?altUrl]\<rparr>"
        show ?thesis
        proof (cases "newRequestOK env ?altUrl")
          case False
          with req Status bad tc None assms have "r \<noteq> None" "i' = i" "w' = w2"
            by (auto simp: attempt_body_def Let_def)
          with w2 show ?thesis
            by (intro exI [of _ w2]) simp
        next
          case True
          with req Status bad tc None assms
          have "r \<noteq> None" "w' = ?w3" "i' = i \<or> i' = i\<lparr>Url := ?altUrl\<rparr>"
            by (auto simp: attempt_body_def Let_def split: if_splits)
          with w2 show ?thesis
            by (intro exI [of _ ?w3]) auto
        qed
      qed
    qed
  qed
qed

lemma attempt_body_props:
  assumes "attempt_body env p k i w = (r, i', w')"
  shows "sleeps w' = sleeps w"
    and "\<exists>rq. requests w' = requests w @ rq"
    and "\<And>q. q \<noteq> p \<Longrightarrow> files w' q = files w q"
    and "PageNumber i' = PageNumber i" "ImageNumber i' = ImageNumber i" "OverallOrder i' = OverallOrder i"
    and "r = None \<Longrightarrow> files w' p = Some Complete"
    and "r \<noteq> None \<Longrightarrow> files w p = None \<Longrightarrow> files w' p = None"
proof -
  from attempt_body_shape [OF assms] obtain w1 where
    w1: "files w1 = files w" "sleeps w1 = sleeps w" "\<exists>rq. requests w1 = requests w @ rq"
    and i: "PageNumber i' = PageNumber i" "ImageNumber i' = ImageNumber i" "OverallOrder i' = OverallOrder i"
    and alt: "(r \<noteq> None \<and> w' = w1) \<or> write_file env k p w1 = (r, w')"
    by blast
  show "PageNumber i' = PageNumber i" "ImageNumber i' = ImageNumber i" "OverallOrder i' = OverallOrder i"
    by (rule i)+
  show "sleeps w' = sleeps w"
    using alt w1 write_file_props(1) [of env k p w1 r w'] by auto
  show "\<exists>rq. requests w' = requests w @ rq"
    using alt w1 write_file_props(2) [of env k p w1 r w'] by auto
  show "\<And>q. q \<noteq> p \<Longrightarrow> files w' q = files w q"
    using alt w1 write_file_props(3) [of env k p w1 r w'] by auto
  show "r = None \<Longrightarrow> files w' p = Some Complete"
    using alt write_file_props(4) [of env k p w1 r w'] by auto
  show "r \<noteq> None \<Longrightarrow> files w p = None \<Longrightarrow> files w' p = None"
    using alt w1 write_file_props(5) [of env k p w1 r w'] by auto
qed

section \<open>Proofs: the retry loop\<close>

lemma attempts_end: "\<not> a < m \<Longrightarrow> attempts env p m a le i w = (Inl (DownloadFailed m le), i, w)"
  by (subst attempts.simps) simp

lemma attempts_step:
  "a < m \<Longrightarrow> attempts env p m a le i w =
     (case attempt_body env p a i (backoff a w) of
        (None, i', w') \<Rightarrow> (Inr (asset_of i' p), i', w')
      | (Some err, i', w') \<Rightarrow> attempts env p m (a + 1) (Some err) i' w')"
  by (subst attempts.simps) (auto simp: backoff_def asset_of_def split: prod.splits option.splits)

lemma backoff_props [simp]:
  "files (backoff a w) = files w" "requests (backoff a w) = requests w"
  by (simp_all add: backoff_def)

lemma attempts_props:
  assumes "attempts env p m a le i w = (res, i', w')" "files w p = None"
  shows "(\<forall>q. q \<noteq> p \<longrightarrow> files w' q = files w q)
       \<and> (\<exists>rq. requests w' = requests w @ rq)
       \<and> PageNumber i' = PageNumber i \<and> ImageNumber i' = ImageNumber i \<and> OverallOrder i' = OverallOrder i
       \<and> (\<forall>e. res = Inl e \<longrightarrow> files w' p = None \<and> (\<exists>le'. e = DownloadFailed m le'))
       \<and> (\<forall>d. res = Inr d \<longrightarrow> files w' p = Some Complete \<and> d = asset_of i' p)"
  using assms
proof (induction "m - a" arbitrary: a le i w)
  case 0
  then have "\<not> a < m" by simp
  with 0 show ?case by (auto simp: attempts_end)
next
  case (Suc n)
  then have lt: "a < m" and n: "n = m - (a + 1)" by simp_all
  obtain r i1 w1 where ab: "attempt_body env p a i (backoff a w) = (r, i1, w1)"
    by (cases "attempt_body env p a i (backoff a w)")
  note P = attempt_body_props [OF ab]
  have none: "files (backoff a w) p = None"
    using Suc.prems(2) by simp
  show ?case
  proof (cases r)
    case None
    with lt ab Suc.prems(1) have "res = Inr (asset_of i1 p)" "i' = i1" "w' = w1"
      by (auto simp: attempts_step)
    with None P show ?thesis by auto
  next
    case (Some err)
    with lt ab Suc.prems(1) have rec: "attempts env p m (a + 1) (Some err) i1 w1 = (res, i', w')"
      by (simp add: attempts_step)
    have w1: "files w1 p = None"
      using P(8) Some none by simp
    from Suc.hyps(1) [OF n rec w1] P show ?thesis
      by auto
  qed
qed


lemma Download_missing:
  "files w (image_path root i) = None \<Longrightarrow>
     Download env i root w = attempts env (image_path root i) 3 0 None i w"
  by (simp add: Download_def)

lemma Download_existing:
  "files w (image_path root i) \<noteq> None \<Longrightarrow>
     Download env i root w = (Inr (asset_of i (image_path root i)), i, w)"
  by (auto simp: Download_def asset_of_def)



lemma Download_props:
  assumes "files w (image_path root i) = None" "Download env i root w = (res, i', w')"
  shows "(\<forall>q. q \<noteq> image_path root i \<longrightarrow> files w' q = files w q)"
    and "\<exists>rq. requests w' = requests w @ rq"
    and "\<And>e. res = Inl e \<Longrightarrow> files w' (image_path root i) = None"
    and "\<And>d. res = Inr d \<Longrightarrow> files w' (image_path root i) = Some Complete
             \<and> FullPath d = image_path root i \<and> Url d = Url i'
             \<and> PageNumber d = PageNumber i \<and> ImageNumber d = ImageNumber i
             \<and> OverallOrder d = OverallOrder i"
  using attempts_props [of env "image_path root i" 3 0 None i w res i' w'] assms
  by (auto simp: Download_missing asset_of_def)

section \<open>Proofs: the outcome of Download does not depend on other files\<close>






section \<open>Proofs: the download phase\<close>

lemma download_item_existing:
  "files w (image_path root i) \<noteq> None \<Longrightarrow>
     download_item sys root idx i w =
       (if barAddOK sys idx then Inr (asset_of i (image_path root i)) else Inl ProgressBarErr, w)"
  by (auto simp: download_item_def asset_of_def Let_def)

lemma download_item_missing:
  "files w (image_path root i) = None \<Longrightarrow>
     download_item sys root idx i w =
       (case Download (item_env sys idx) i root w of
          (Inl err, i', w') \<Rightarrow> (Inl err, w')
        | (Inr result, i', w') \<Rightarrow> (if barAddOK sys idx then Inr result else Inl ProgressBarErr, w'))"
  by (simp add: download_item_def Let_def)

lemma download_item_props:
  assumes "download_item sys root idx i w = (res, w')"
  shows "\<And>q. q \<noteq> image_path root i \<Longrightarrow> files w' q = files w q"
    and "\<And>q. files w q \<noteq> None \<Longrightarrow> files w' q = files w q"
    and "\<exists>rq. requests w' = requests w @ rq"
    and "\<And>d. res = Inr d \<Longrightarrow> files w' (image_path root i) \<noteq> None
             \<and> FullPath d = image_path root i \<and> PageNumber d = PageNumber i
             \<and> ImageNumber d = ImageNumber i \<and> OverallOrder d = OverallOrder i"
proof -
  let ?p = "image_path root i"
  have all: "(\<forall>q. q \<noteq> ?p \<longrightarrow> files w' q = files w q)
     \<and> (\<forall>q. files w q \<noteq> None \<longrightarrow> files w' q = files w q)
     \<and> (\<exists>rq. requests w' = requests w @ rq)
     \<and> (\<forall>d. res = Inr d \<longrightarrow> files w' ?p \<noteq> None
             \<and> FullPath d = ?p \<and> PageNumber d = PageNumber i
             \<and> ImageNumber d = ImageNumber i \<and> OverallOrder d = OverallOrder i)"
  proof (cases "files w ?p = None")
    case False
    with assms show ?thesis
      by (auto simp: download_item_existing asset_of_def split: if_splits)
  next
    case True
    obtain r i' w1 where D: "Download (item_env sys idx) i root w = (r, i', w1)"
      by (cases "Download (item_env sys idx) i root w")
    note P = Download_props [OF True D]
    from assms True D have w': "w' = w1"
      by (auto simp: download_item_missing split: sum.splits)
    from assms True D have res: "\<And>d. res = Inr d \<Longrightarrow> r = Inr d"
      by (auto simp: download_item_missing split: sum.splits if_splits)
    have ex: "\<And>q. files w q \<noteq> None \<Longrightarrow> q \<noteq> ?p"
      using True by auto
    show ?thesis
      unfolding w' using P res ex by (metis option.distinct(1))
  qed
  from all show "\<And>q. q \<noteq> image_path root i \<Longrightarrow> files w' q = files w q"
    and "\<And>q. files w q \<noteq> None \<Longrightarrow> files w' q = files w q"
    and "\<exists>rq. requests w' = requests w @ rq"
    and "\<And>d. res = Inr d \<Longrightarrow> files w' (image_path root i) \<noteq> None
             \<and> FullPath d = image_path root i \<and> PageNumber d = PageNumber i
             \<and> ImageNumber d = ImageNumber i \<and> OverallOrder d = OverallOrder i"
    by blast+
qed

lemma download_batch_append:
  "download_batch sys root idx (xs @ ys) acc w =
     (case download_batch sys root idx xs acc w of
        (Inl e, w') \<Rightarrow> (Inl e, w')
      | (Inr acc', w') \<Rightarrow> download_batch sys root (idx + length xs) ys acc' w')"
proof (induction xs arbitrary: idx acc w)
  case Nil
  show ?case by simp
next
  case (Cons x xs)
  show ?case
    using Cons.IH [of "idx + 1"]
    by (simp split: prod.splits sum.splits)
qed

lemma download_batches_eq:
  assumes "length images \<le> numBatches * B"
  shows "download_batches sys root images B numBatches k acc w
           = download_batch sys root (k * B) (drop (k * B) images) acc w"
proof (induction "numBatches - k" arbitrary: k acc w)
  case 0
  then have "numBatches \<le> k" by simp
  then have "numBatches * B \<le> k * B" by (rule mult_le_mono1)
  with assms have "length images \<le> k * B" by (rule le_trans)
  then have "drop (k * B) images = []" by simp
  with 0 show ?case
    by (subst download_batches.simps) simp
next
  case (Suc d)
  then have lt: "k < numBatches" and d: "d = numBatches - (k + 1)" by simp_all
  let ?batch = "take ((if (k + 1) * B > length images then length images else (k + 1) * B) - k * B)
                  (drop (k * B) images)"
  let ?rest = "drop ((k + 1) * B) images"
  obtain r w1 where b: "download_batch sys root (k * B) ?batch acc w = (r, w1)"
    by (cases "download_batch sys root (k * B) ?batch acc w")
  have split: "drop (k * B) images = ?batch @ ?rest"
    by (simp only: slice_append_rest)
  have whole: "download_batch sys root (k * B) (drop (k * B) images) acc w
      = (case r of Inl e \<Rightarrow> (Inl e, w1)
         | Inr acc' \<Rightarrow> download_batch sys root (k * B + length ?batch) ?rest acc' w1)"
    by (subst split) (simp only: download_batch_append b prod.case)
  have unfold: "download_batches sys root images B numBatches k acc w
      = (case r of Inl e \<Rightarrow> (Inl e, w1)
         | Inr acc' \<Rightarrow> download_batches sys root images B numBatches (k + 1) acc' w1)"
    using lt b by (subst download_batches.simps) (simp add: Let_def)
  show ?case
  proof (cases r)
    case (Inl e)
    then show ?thesis
      by (simp only: whole unfold sum.case)
  next
    case (Inr acc')
    have "download_batches sys root images B numBatches (k + 1) acc' w1
            = download_batch sys root ((k + 1) * B) ?rest acc' w1"
      by (rule Suc.hyps(1) [OF d])
    also have "\<dots> = download_batch sys root (k * B + length ?batch) ?rest acc' w1"
    proof (cases "(k + 1) * B > length images")
      case True
      then have "?rest = []" by simp
      then show ?thesis by (simp only: download_batch.simps)
    next
      case False
      then have "k * B + length ?batch = (k + 1) * B" by simp
      then show ?thesis by (simp only:)
    qed
    finally show ?thesis
      by (simp only: whole unfold Inr sum.case)
  qed
qed

lemma downloadImages_eq:
  assumes "image_root_result sys = Inr root" "images \<noteq> []"
  shows "downloadImages sys images w =
     (case download_batch sys root 0 images [] w of
        (Inl err, w') \<Rightarrow> (Inl err, w')
      | (Inr downloadedImages, w') \<Rightarrow>
          if \<not> barCloseOK sys then (Inl ProgressBarErr, w')
          else (Inr (sort_key OverallOrder downloadedImages), w'))"
proof -
  let ?B = "if length images \<le> 50 then length images else 50"
  have pos: "0 < ?B" using assms(2) by simp
  have "download_batches sys root images ?B ((length images + ?B - 1) div ?B) 0 [] w
          = download_batch sys root 0 images [] w"
    using download_batches_eq [OF ceil_div_covers [OF pos, of "length images"], of sys root 0 "[]" w]
    by simp
  then show ?thesis
    using pos by (simp add: downloadImages_def assms(1) Let_def del: One_nat_def)
qed

lemma downloadImages_no_images:
  "image_root_result sys = Inr root \<Longrightarrow> downloadImages sys [] w = (Inl DivideByZero, w)"
  by (simp add: downloadImages_def)

lemma download_batch_props:
  assumes "download_batch sys root idx imgs acc w = (res, w')"
  shows "(\<forall>q. q \<notin> image_path root ` set imgs \<longrightarrow> files w' q = files w q)
       \<and> (\<forall>q. files w q \<noteq> None \<longrightarrow> files w' q = files w q)
       \<and> (\<exists>rq. requests w' = requests w @ rq)
       \<and> (\<forall>ds. res = Inr ds \<longrightarrow>
             (\<exists>rs. ds = acc @ rs \<and> map asset_core rs = map (descriptor_core root) imgs)
             \<and> (\<forall>i\<in>set imgs. files w' (image_path root i) \<noteq> None))"
  using assms
proof (induction imgs arbitrary: idx acc w)
  case Nil
  then show ?case by auto
next
  case (Cons x rest)
  obtain r w1 where it: "download_item sys root idx x w = (r, w1)"
    by (cases "download_item sys root idx x w")
  note P = download_item_props [OF it]
  show ?case
  proof (cases r)
    case (Inl e)
    with it Cons.prems have "res = Inl e" "w' = w1" by simp_all
    with P show ?thesis by auto
  next
    case (Inr d)
    with it Cons.prems have rec: "download_batch sys root (idx + 1) rest (acc @ [d]) w1 = (res, w')"
      by simp
    note IH = Cons.IH [OF rec]
    have core: "asset_core d = descriptor_core root x"
      using P(4) [OF Inr] by (simp add: asset_core_def descriptor_core_def)
    have kept: "files w1 (image_path root x) \<noteq> None"
      using P(4) [OF Inr] by simp
    have 1: "\<forall>q. q \<notin> image_path root ` set (x # rest) \<longrightarrow> files w' q = files w q"
      using IH P(1) by auto
    have 2: "\<forall>q. files w q \<noteq> None \<longrightarrow> files w' q = files w q"
      using IH P(2) by metis
    have 3: "\<exists>rq. requests w' = requests w @ rq"
      using IH P(3) by auto
    have 4: "\<forall>ds. res = Inr ds \<longrightarrow>
             (\<exists>rs. ds = acc @ rs \<and> map asset_core rs = map (descriptor_core root) (x # rest))
             \<and> (\<forall>i\<in>set (x # rest). files w' (image_path root i) \<noteq> None)"
    proof (intro allI impI)
      fix ds assume ds: "res = Inr ds"
      with IH obtain rs where rs: "ds = (acc @ [d]) @ rs"
        "map asset_core rs = map (descriptor_core root) rest"
        and ex: "\<forall>i\<in>set rest. files w' (image_path root i) \<noteq> None"
        by blast
      have "ds = acc @ (d # rs)" "map asset_core (d # rs) = map (descriptor_core root) (x # rest)"
        using rs core by simp_all
      moreover have "files w' (image_path root x) \<noteq> None"
        using IH kept by metis
      ultimately show "(\<exists>rs. ds = acc @ rs \<and> map asset_core rs = map (descriptor_core root) (x # rest))
             \<and> (\<forall>i\<in>set (x # rest). files w' (image_path root i) \<noteq> None)"
        using ex by auto
    qed
    from 1 2 3 4 show ?thesis by blast
  qed
qed

lemma download_batch_existing:
  assumes "\<forall>i\<in>set imgs. files w (image_path root i) \<noteq> None"
    and "\<forall>k<length imgs. barAddOK sys (idx + k)"
  shows "download_batch sys root idx imgs acc w
           = (Inr (acc @ map (\<lambda>i. asset_of i (image_path root i)) imgs), w)"
  using assms
proof (induction imgs arbitrary: idx acc)
  case Nil
  show ?case by simp
next
  case (Cons x rest)
  have bar: "barAddOK sys idx"
    using Cons.prems(2) by force
  have rest: "\<forall>k<length rest. barAddOK sys (idx + 1 + k)"
    using Cons.prems(2) by force
  show ?case
    using Cons.prems(1) bar Cons.IH [OF _ rest, of "acc @ [asset_of x (image_path root x)]"]
    by (simp add: download_item_existing)
qed


section \<open>Proofs: alternate URLs\<close>






lemma downloadImages_success:
  assumes "image_root_result sys = Inr root" "downloadImages sys images w = (Inr ds, w')"
  shows "\<exists>rs. ds = sort_key OverallOrder rs \<and> map asset_core rs = map (descriptor_core root) images"
    and "\<forall>i\<in>set images. files w' (image_path root i) \<noteq> None"
    and "\<forall>q. q \<notin> image_path root ` set images \<longrightarrow> files w' q = files w q"
    and "\<forall>q. files w q \<noteq> None \<longrightarrow> files w' q = files w q"
proof -
  have ne: "images \<noteq> []"
    using assms by (auto simp: downloadImages_no_images)
  obtain r w1 where b: "download_batch sys root 0 images [] w = (r, w1)"
    by (cases "download_batch sys root 0 images [] w")
  from assms(2) b obtain rs where r: "r = Inr rs" and ds: "ds = sort_key OverallOrder rs" and w1: "w1 = w'"
    by (auto simp: downloadImages_eq [OF assms(1) ne] split: sum.splits if_splits)
  note P = download_batch_props [OF b]
  show "\<exists>rs. ds = sort_key OverallOrder rs \<and> map asset_core rs = map (descriptor_core root) images"
    using P r ds by auto
  show "\<forall>i\<in>set images. files w' (image_path root i) \<noteq> None"
    using P r w1 by auto
  show "\<forall>q. q \<notin> image_path root ` set images \<longrightarrow> files w' q = files w q"
    using P w1 by auto
  show "\<forall>q. files w q \<noteq> None \<longrightarrow> files w' q = files w q"
    using P w1 by auto
qed

section \<open>Proofs: the retry policy of Download\<close>





end
